theory Spec2Isabelle
  imports Main "HOL-Library.AList"
begin

section \<open>Data model of \<^verbatim>\<open>src/block_mesh.ts\<close>\<close>

text \<open>
  Coordinates are integer triples (class \<^verbatim>\<open>Vector3\<close>). \<^verbatim>\<open>Vector3.add\<close> and the instance
  method \<^verbatim>\<open>add\<close> are componentwise addition.
\<close>

datatype Vector3 = Vector3 (vx: int) (vy: int) (vz: int)

definition Vector3_add :: "Vector3 \<Rightarrow> Vector3 \<Rightarrow> Vector3" where
  "Vector3_add a b = Vector3 (vx a + vx b) (vy a + vy b) (vz a + vz b)"

text \<open>The colour type is opaque to \<^verbatim>\<open>BlockMesh\<close>: it is only handed to the assigner.\<close>

record 'c Voxel =
  position :: Vector3
  colour :: 'c

text \<open>\<^verbatim>\<open>BlockInfo\<close>: only the field \<^verbatim>\<open>name\<close> is read by \<^verbatim>\<open>BlockMesh\<close>.\<close>

record BlockInfo =
  name :: string

record 'c Block =
  voxel :: "'c Voxel"
  blockInfo :: BlockInfo

datatype FallableBehaviour = ReplaceFalling | ReplaceFallable | PlaceString | DoNothing

datatype ColourSpace = RGB | LAB

record Bounds =
  min_corner :: Vector3
  max_corner :: Vector3

text \<open>
  \<^verbatim>\<open>VoxelMesh\<close> is consumed through three methods only: \<^verbatim>\<open>getVoxels()\<close>,
  \<^verbatim>\<open>isVoxelAt(pos)\<close> and \<^verbatim>\<open>getBounds()\<close>. The class itself is an external collaborator,
  so the mesh is the record of what these three methods answer.
\<close>

record 'c VoxelMesh =
  getVoxels :: "'c Voxel list"
  isVoxelAt :: "Vector3 \<Rightarrow> bool"
  getBounds :: Bounds

type_synonym Atlas = "BlockInfo list"
type_synonym Palette = "string list"
type_synonym TBlockCollection = "BlockInfo list"

record AtlasPalette =
  ap_atlas :: Atlas
  ap_palette :: Palette

text \<open>
  \<^verbatim>\<open>blockAssigner.assignBlock(atlasPalette, colour, position, resolution, colourSpace,
  collection)\<close>: a pluggable strategy, taken as a function of its six arguments.
\<close>

type_synonym 'c TBlockAssigner =
  "AtlasPalette \<Rightarrow> 'c \<Rightarrow> Vector3 \<Rightarrow> int \<Rightarrow> ColourSpace \<Rightarrow> TBlockCollection \<Rightarrow> BlockInfo"

text \<open>\<^verbatim>\<open>AssignParams.Input\<close>: the fields \<^verbatim>\<open>_assignBlocks\<close> reads.\<close>

record AssignParams =
  textureAtlas :: string
  blockPalette :: string
  blockAssigner :: string
  resolution :: int
  colourSpace :: ColourSpace
  fallable :: FallableBehaviour

text \<open>
  The collaborators of \<^verbatim>\<open>_assignBlocks\<close> that are defined in other modules:
  \<^verbatim>\<open>Atlas.load\<close>, \<^verbatim>\<open>Palette.load\<close>, \<^verbatim>\<open>BlockAssignerFactory.GetAssigner\<close> and the
  method \<^verbatim>\<open>createBlockCollection(blocksToExclude)\<close> of \<^verbatim>\<open>AtlasPalette\<close>. The two loaders
  answer \<^verbatim>\<open>undefined\<close> (here \<open>None\<close>) when the descriptor cannot be resolved.
\<close>

record 'c Externals =
  Atlas_load :: "string \<Rightarrow> Atlas option"
  Palette_load :: "string \<Rightarrow> Palette option"
  GetAssigner :: "string \<Rightarrow> 'c TBlockAssigner"
  createBlockCollection :: "AtlasPalette \<Rightarrow> string list \<Rightarrow> TBlockCollection"

datatype AppError = AssertionError string

text \<open>
  A status entry \<^verbatim>\<open>StatusHandler.Get.add(severity, message)\<close>. The only message produced
  here is \<^verbatim>\<open>`${countFalling.toLocaleString()} blocks will fall under gravity ...`\<close>; it is
  represented by its severity and the number it cites.
\<close>

type_synonym StatusEntry = "string \<times> nat"

text \<open>
  A worklist entry \<^verbatim>\<open>{ pos: Vector3, value: number }\<close> of the lighting pass.
\<close>

datatype Action = Action (pos: Vector3) (val: int)

text \<open>
  The lighting field \<^verbatim>\<open>Map<string, number>\<close>, keyed by \<^verbatim>\<open>Vector3.stringify()\<close>. The key
  is taken to be the coordinate itself (stringify is read as injective on coordinates); the
  map is an association list in insertion order, \<^verbatim>\<open>get\<close> is \<^const>\<open>map_of\<close> and
  \<^verbatim>\<open>set\<close> is \<^const>\<open>AList.update\<close>.
\<close>

type_synonym LightMap = "(Vector3 \<times> int) list"

text \<open>
  The aggregate. \<^verbatim>\<open>_bufferChunks\<close> is a sparse array of chunk descriptions of an opaque
  type \<open>'b\<close>; an absent slot reads \<^verbatim>\<open>undefined\<close>, here \<open>None\<close>.
\<close>

record ('c, 'b) BlockMesh =
  blocksUsed :: "string list"
  blocks :: "'c Block list"
  voxelMesh :: "'c VoxelMesh"
  fallableBlocks :: "string list"
  atlas :: Atlas
  lighting :: LightMap
  bufferChunks :: "nat \<Rightarrow> 'b option"

text \<open>
  The private constructor. \<^verbatim>\<open>Atlas.getVanillaAtlas()\<close> and the contents of
  \<^verbatim>\<open>fallable_blocks.json\<close> are read from the environment and are parameters here.
\<close>

definition new_BlockMesh :: "Atlas \<Rightarrow> string list \<Rightarrow> 'c VoxelMesh \<Rightarrow> ('c, 'b) BlockMesh" where
  "new_BlockMesh vanillaAtlas fallableBlocksJson vm =
     \<lparr> blocksUsed = [], blocks = [], voxelMesh = vm, fallableBlocks = fallableBlocksJson,
       atlas = vanillaAtlas, lighting = [], bufferChunks = (\<lambda>_. None) \<rparr>"

section \<open>Block assignment: \<^verbatim>\<open>BlockMesh._assignBlocks\<close>\<close>

text \<open>The locals of \<^verbatim>\<open>_assignBlocks\<close> that the loop body reads.\<close>

record 'c AssignLocals =
  l_blockAssigner :: "'c TBlockAssigner"
  l_atlasPalette :: AtlasPalette
  l_params :: AssignParams
  l_allBlockCollection :: TBlockCollection
  l_nonFallableBlockCollection :: TBlockCollection

text \<open>Lines 83-90: the first call of the assigner, on the collection of all blocks.\<close>

definition candidateBlock :: "'c AssignLocals \<Rightarrow> 'c Voxel \<Rightarrow> BlockInfo" where
  "candidateBlock l v =
     l_blockAssigner l (l_atlasPalette l) (colour v) (position v)
       (resolution (l_params l)) (colourSpace (l_params l)) (l_allBlockCollection l)"

text \<open>Lines 103-110: the second call, on the non-fallable collection and in RGB.\<close>

definition replacedBlock :: "'c AssignLocals \<Rightarrow> 'c Voxel \<Rightarrow> BlockInfo" where
  "replacedBlock l v =
     l_blockAssigner l (l_atlasPalette l) (colour v) (position v)
       (resolution (l_params l)) RGB (l_nonFallableBlockCollection l)"

text \<open>Line 92.\<close>

definition isFallable :: "('c, 'b) BlockMesh \<Rightarrow> BlockInfo \<Rightarrow> bool" where
  "isFallable bm b = (name b \<in> set (fallableBlocks bm))"

text \<open>Line 93.\<close>

definition isSupported :: "('c, 'b) BlockMesh \<Rightarrow> 'c Voxel \<Rightarrow> bool" where
  "isSupported bm v = isVoxelAt (voxelMesh bm) (Vector3_add (position v) (Vector3 0 (- 1) 0))"

text \<open>Lines 99-100.\<close>

definition shouldReplace :: "('c, 'b) BlockMesh \<Rightarrow> 'c AssignLocals \<Rightarrow> 'c Voxel \<Rightarrow> bool" where
  "shouldReplace bm l v =
     ((fallable (l_params l) = ReplaceFallable \<and> isFallable bm (candidateBlock l v))
      \<or> (fallable (l_params l) = ReplaceFalling \<and> isFallable bm (candidateBlock l v)
           \<and> \<not> isSupported bm v))"

text \<open>Lines 95-97: whether this voxel increments \<^verbatim>\<open>countFalling\<close>.\<close>

definition isFalling :: "('c, 'b) BlockMesh \<Rightarrow> 'c AssignLocals \<Rightarrow> 'c Voxel \<Rightarrow> bool" where
  "isFalling bm l v = (isFallable bm (candidateBlock l v) \<and> \<not> isSupported bm v)"

text \<open>The value of \<^verbatim>\<open>block\<close> at line 114.\<close>

definition finalBlock :: "('c, 'b) BlockMesh \<Rightarrow> 'c AssignLocals \<Rightarrow> 'c Voxel \<Rightarrow> BlockInfo" where
  "finalBlock bm l v = (if shouldReplace bm l v then replacedBlock l v else candidateBlock l v)"

text \<open>
  One iteration of the loop at lines 78-121 on the aggregate and the counter
  \<^verbatim>\<open>countFalling\<close>. The fallable names and the voxel mesh are read from the aggregate, which
  the body changes only in \<^verbatim>\<open>_blocks\<close> and \<^verbatim>\<open>_blocksUsed\<close>.
\<close>

definition assignVoxel ::
  "'c AssignLocals \<Rightarrow> 'c Voxel \<Rightarrow> ('c, 'b) BlockMesh \<times> nat \<Rightarrow> ('c, 'b) BlockMesh \<times> nat" where
  "assignVoxel l v s =
     (case s of (bm, countFalling) \<Rightarrow>
        let block = candidateBlock l v;
            isF = isFallable bm block;
            isS = isSupported bm v;
            countFalling' = (if isF \<and> \<not> isS then countFalling + 1 else countFalling);
            shouldRep = ((fallable (l_params l) = ReplaceFallable \<and> isF)
                         \<or> (fallable (l_params l) = ReplaceFalling \<and> isF \<and> \<not> isS));
            block' = (if shouldRep then replacedBlock l v else block);
            bm1 = bm\<lparr> blocks := blocks bm @ [\<lparr> voxel = v, blockInfo = block' \<rparr>] \<rparr>;
            bm2 = (if name block' \<notin> set (blocksUsed bm1)
                   then bm1\<lparr> blocksUsed := blocksUsed bm1 @ [name block'] \<rparr> else bm1)
        in (bm2, countFalling'))"

fun assignLoop ::
  "'c AssignLocals \<Rightarrow> 'c Voxel list \<Rightarrow> ('c, 'b) BlockMesh \<times> nat \<Rightarrow> ('c, 'b) BlockMesh \<times> nat" where
  "assignLoop l [] s = s"
| "assignLoop l (v # vs) s = assignLoop l vs (assignVoxel l v s)"

text \<open>Lines 69-73: the locals built before the loop.\<close>

definition assignLocals ::
  "'c Externals \<Rightarrow> ('c, 'b) BlockMesh \<Rightarrow> AssignParams \<Rightarrow> Atlas \<Rightarrow> Palette \<Rightarrow> 'c AssignLocals" where
  "assignLocals ext bm params a p =
     (let atlasPalette = \<lparr> ap_atlas = a, ap_palette = p \<rparr> in
      \<lparr> l_blockAssigner = GetAssigner ext (blockAssigner params),
        l_atlasPalette = atlasPalette,
        l_params = params,
        l_allBlockCollection = createBlockCollection ext atlasPalette [],
        l_nonFallableBlockCollection = createBlockCollection ext atlasPalette (fallableBlocks bm) \<rparr>)"

text \<open>
  \<^verbatim>\<open>_assignBlocks\<close>: the two \<^verbatim>\<open>ASSERT\<close>s are the error branches; the result is the
  updated aggregate and the status entries added at lines 124-126.
\<close>

definition assignBlocks ::
  "'c Externals \<Rightarrow> AssignParams \<Rightarrow> ('c, 'b) BlockMesh
     \<Rightarrow> AppError + (('c, 'b) BlockMesh \<times> StatusEntry list)" where
  "assignBlocks ext params bm =
     (case Atlas_load ext (textureAtlas params) of
        None \<Rightarrow> Inl (AssertionError ''Could not load atlas'')
      | Some a \<Rightarrow>
          (case Palette_load ext (blockPalette params) of
             None \<Rightarrow> Inl (AssertionError ''Could not load palette'')
           | Some p \<Rightarrow>
               let bm0 = bm\<lparr> atlas := a \<rparr>;
                   l = assignLocals ext bm0 params a p;
                   (bm', countFalling) = assignLoop l (getVoxels (voxelMesh bm0)) (bm0, 0)
               in Inr (bm',
                       if fallable params = DoNothing \<and> countFalling > 0
                       then [(''warning'', countFalling)] else [])))"

section \<open>Lighting: \<^verbatim>\<open>BlockMesh._calculateLighting\<close>\<close>

text \<open>
  The coordinates visited by the three nested loops at lines 157-166, in loop order. The
  loop variables run over integers from \<open>min - 1\<close> to \<open>max + 1\<close>; an empty range gives
  no iteration.
\<close>

definition lightingCells :: "Bounds \<Rightarrow> Vector3 list" where
  "lightingCells b =
     concat (map (\<lambda>x.
       concat (map (\<lambda>y.
         map (\<lambda>z. Vector3 x y z) [vz (min_corner b) - 1 .. vz (max_corner b) + 1])
       [vy (min_corner b) - 1 .. vy (max_corner b) + 1]))
     [vx (min_corner b) - 1 .. vx (max_corner b) + 1])"

text \<open>Lines 152-166: the map is cleared, then every cell is set to 0.\<close>

definition initLighting :: "Bounds \<Rightarrow> LightMap" where
  "initLighting b = foldl (\<lambda>m p. AList.update p 0 m) [] (lightingCells b)"

text \<open>
  The worklist \<^verbatim>\<open>actions\<close> is used as a stack (\<^verbatim>\<open>push\<close> and \<^verbatim>\<open>pop\<close> at the end of the
  array). It is kept with its last element first: \<^verbatim>\<open>push\<close> is \<open>Cons\<close> and \<^verbatim>\<open>pop\<close>
  takes the head.
\<close>

definition push :: "Action list \<Rightarrow> Action \<Rightarrow> Action list" where
  "push actions a = a # actions"

text \<open>Lines 169-179: the seeds, pushed column by column.\<close>

definition initActions :: "Bounds \<Rightarrow> Action list" where
  "initActions b =
     foldl push []
       (concat (map (\<lambda>x.
          map (\<lambda>z. Action (Vector3 x (vy (max_corner b) + 1) z) 15)
            [vz (min_corner b) - 1 .. vz (max_corner b) + 1])
        [vx (min_corner b) - 1 .. vx (max_corner b) + 1]))"

text \<open>Lines 196-201: the six entries pushed after an update, in the order of the pushes.\<close>

definition neighbours :: "Action \<Rightarrow> Action list" where
  "neighbours a =
     [Action (Vector3_add (Vector3 0 1 0) (pos a)) (val a - 1),
      Action (Vector3_add (Vector3 1 0 0) (pos a)) (val a - 1),
      Action (Vector3_add (Vector3 0 0 1) (pos a)) (val a - 1),
      Action (Vector3_add (Vector3 (- 1) 0 0) (pos a)) (val a - 1),
      Action (Vector3_add (Vector3 0 0 (- 1)) (pos a)) (val a - 1),
      Action (Vector3_add (Vector3 0 (- 1) 0) (pos a)) (if val a = 15 then 15 else val a - 1)]"

text \<open>
  The body of the \<^verbatim>\<open>while\<close> loop (lines 182-202) for the popped entry \<open>a\<close> and the
  remaining stack \<open>rest\<close>; \<open>occ\<close> is \<^verbatim>\<open>this._voxelMesh.isVoxelAt\<close>.
\<close>

definition lightingStep ::
  "(Vector3 \<Rightarrow> bool) \<Rightarrow> LightMap \<Rightarrow> Action \<Rightarrow> Action list \<Rightarrow> LightMap \<times> Action list" where
  "lightingStep occ L a rest =
     (case map_of L (pos a) of
        None \<Rightarrow> (L, rest)
      | Some currentLightValue \<Rightarrow>
          if val a > currentLightValue \<and> \<not> occ (pos a)
          then (AList.update (pos a) (val a) L, foldl push rest (neighbours a))
          else (L, rest))"

text \<open>The measure of the loop: an upper bound of all values in sight, and the room left under it.\<close>

definition lightBound :: "LightMap \<Rightarrow> Action list \<Rightarrow> int" where
  "lightBound L actions = Max (insert 0 (snd ` set L \<union> val ` set actions))"

definition lightRoom :: "int \<Rightarrow> LightMap \<Rightarrow> nat" where
  "lightRoom B L = sum_list (map (\<lambda>e. nat (B - snd e)) L)"

lemma lightBound_ge:
  "x \<in> insert 0 (snd ` set L \<union> val ` set actions) \<Longrightarrow> x \<le> lightBound L actions"
  unfolding lightBound_def by (rule Max_ge) auto

lemma lightBound_le:
  "0 \<le> B \<Longrightarrow> \<forall>x \<in> snd ` set L. x \<le> B \<Longrightarrow> \<forall>a \<in> set actions. val a \<le> B
   \<Longrightarrow> lightBound L actions \<le> B"
  unfolding lightBound_def by (subst Max_le_iff) auto

lemma lightRoom_mono: "B' \<le> B \<Longrightarrow> lightRoom B' L \<le> lightRoom B L"
  unfolding lightRoom_def by (rule sum_list_mono) simp

lemma set_update_subset: "set (AList.update k v al) \<subseteq> insert (k, v) (set al)"
  by (induction al) auto

lemma lightRoom_update:
  "map_of L k = Some cur \<Longrightarrow> cur < v \<Longrightarrow> v \<le> B
   \<Longrightarrow> lightRoom B (AList.update k v L) < lightRoom B L"
proof (induction L)
  case Nil
  then show ?case by simp
next
  case (Cons e L)
  show ?case
  proof (cases "fst e = k")
    case True
    with Cons.prems show ?thesis
      by (cases e) (simp add: lightRoom_def)
  next
    case False
    with Cons show ?thesis
      by (cases e) (simp add: lightRoom_def)
  qed
qed

lemma set_foldl_push: "set (foldl push rest xs) = set xs \<union> set rest"
  by (induction xs arbitrary: rest) (auto simp: push_def)

lemma val_neighbours: "n \<in> set (neighbours a) \<Longrightarrow> val n \<le> val a"
  by (auto simp: neighbours_def)

lemma lightingStep_measure:
  "lightRoom (lightBound (fst (lightingStep occ L a rest)) (snd (lightingStep occ L a rest)))
       (fst (lightingStep occ L a rest))
     < lightRoom (lightBound L (a # rest)) L
   \<or> (lightRoom (lightBound (fst (lightingStep occ L a rest)) (snd (lightingStep occ L a rest)))
       (fst (lightingStep occ L a rest))
       \<le> lightRoom (lightBound L (a # rest)) L
      \<and> length (snd (lightingStep occ L a rest)) < length (a # rest))"
proof (cases "\<exists>cur. map_of L (pos a) = Some cur \<and> cur < val a \<and> \<not> occ (pos a)")
  case True
  then obtain cur where cur: "map_of L (pos a) = Some cur" "cur < val a" "\<not> occ (pos a)"
    by blast
  let ?B = "lightBound L (a # rest)"
  let ?L' = "AList.update (pos a) (val a) L"
  let ?acts' = "foldl push rest (neighbours a)"
  have st: "lightingStep occ L a rest = (?L', ?acts')"
    using cur by (simp add: lightingStep_def)
  have va: "val a \<le> ?B"
    by (rule lightBound_ge) simp
  have "lightBound ?L' ?acts' \<le> ?B"
  proof (rule lightBound_le)
    show "0 \<le> ?B" by (rule lightBound_ge) simp
    show "\<forall>x \<in> snd ` set ?L'. x \<le> ?B"
    proof
      fix x assume "x \<in> snd ` set ?L'"
      then obtain e where e: "e \<in> set ?L'" "x = snd e" by blast
      with set_update_subset [of "pos a" "val a" L]
      have "e = (pos a, val a) \<or> e \<in> set L" by blast
      then show "x \<le> ?B"
      proof
        assume "e = (pos a, val a)"
        with e va show ?thesis by simp
      next
        assume "e \<in> set L"
        with e show ?thesis by (intro lightBound_ge) auto
      qed
    qed
    show "\<forall>n \<in> set ?acts'. val n \<le> ?B"
    proof
      fix n assume "n \<in> set ?acts'"
      then have "n \<in> set (neighbours a) \<or> n \<in> set rest"
        by (simp add: set_foldl_push)
      then show "val n \<le> ?B"
      proof
        assume "n \<in> set (neighbours a)"
        from val_neighbours [OF this] va show ?thesis by simp
      next
        assume "n \<in> set rest"
        then show ?thesis by (intro lightBound_ge) auto
      qed
    qed
  qed
  then have "lightRoom (lightBound ?L' ?acts') ?L' \<le> lightRoom ?B ?L'"
    by (rule lightRoom_mono)
  also have "\<dots> < lightRoom ?B L"
    using cur(1,2) va by (rule lightRoom_update)
  finally show ?thesis
    by (simp add: st)
next
  case False
  then have st: "lightingStep occ L a rest = (L, rest)"
    by (auto simp: lightingStep_def split: option.splits)
  have "lightBound L rest \<le> lightBound L (a # rest)"
  proof (rule lightBound_le)
    show "0 \<le> lightBound L (a # rest)" by (rule lightBound_ge) simp
    show "\<forall>x \<in> snd ` set L. x \<le> lightBound L (a # rest)"
      by (auto intro!: lightBound_ge)
    show "\<forall>n \<in> set rest. val n \<le> lightBound L (a # rest)"
      by (auto intro!: lightBound_ge)
  qed
  then have "lightRoom (lightBound L rest) L \<le> lightRoom (lightBound L (a # rest)) L"
    by (rule lightRoom_mono)
  then show ?thesis
    by (simp add: st)
qed

text \<open>
  The \<^verbatim>\<open>while (actions.length > 0)\<close> loop of lines 181-203. The popped entry is always
  defined, so the \<^verbatim>\<open>ASSERT\<close> at line 183 cannot fail.
\<close>

function lightingLoop :: "(Vector3 \<Rightarrow> bool) \<Rightarrow> LightMap \<Rightarrow> Action list \<Rightarrow> LightMap" where
  "lightingLoop occ L [] = L"
| "lightingLoop occ L (a # rest) =
     lightingLoop occ (fst (lightingStep occ L a rest)) (snd (lightingStep occ L a rest))"
  by pat_completeness auto
termination
proof (relation "measures [\<lambda>(occ, L, actions). lightRoom (lightBound L actions) L,
                           \<lambda>(occ, L, actions). length actions]")
  show "wf (measures [\<lambda>(occ, L, actions). lightRoom (lightBound L actions) L,
                      \<lambda>(occ, L, actions). length actions])"
    by simp
next
  fix occ :: "Vector3 \<Rightarrow> bool" and L :: LightMap and a :: Action and rest :: "Action list"
  from lightingStep_measure [of occ L a rest]
  show "((occ, fst (lightingStep occ L a rest), snd (lightingStep occ L a rest)),
         (occ, L, a # rest))
        \<in> measures [\<lambda>(occ, L, actions). lightRoom (lightBound L actions) L,
                     \<lambda>(occ, L, actions). length actions]"
    by (auto simp: case_prod_beta)
qed

definition calculateLighting :: "('c, 'b) BlockMesh \<Rightarrow> ('c, 'b) BlockMesh" where
  "calculateLighting bm =
     (let blocksBounds = getBounds (voxelMesh bm) in
      bm\<lparr> lighting := lightingLoop (isVoxelAt (voxelMesh bm))
                         (initLighting blocksBounds) (initActions blocksBounds) \<rparr>)"

text \<open>
  \<^verbatim>\<open>createFromVoxelMesh\<close>: construct, assign, then light. A failed \<^verbatim>\<open>ASSERT\<close> of the
  assignment aborts the construction.
\<close>

definition createFromVoxelMesh ::
  "'c Externals \<Rightarrow> Atlas \<Rightarrow> string list \<Rightarrow> 'c VoxelMesh \<Rightarrow> AssignParams
     \<Rightarrow> AppError + (('c, 'b) BlockMesh \<times> StatusEntry list)" where
  "createFromVoxelMesh ext vanillaAtlas fallableBlocksJson vm blockMeshParams =
     (case assignBlocks ext blockMeshParams (new_BlockMesh vanillaAtlas fallableBlocksJson vm) of
        Inl e \<Rightarrow> Inl e
      | Inr (blockMesh, status) \<Rightarrow> Inr (calculateLighting blockMesh, status))"

section \<open>The chunked buffer cache: \<^verbatim>\<open>BlockMesh.getChunkedBuffer\<close>\<close>

text \<open>
  \<^verbatim>\<open>ChunkedBufferGenerator.fromBlockMesh(this, chunkIndex)\<close> is an external collaborator,
  taken as a function \<open>gen\<close> of the aggregate and the index; its result type has no
  \<^verbatim>\<open>undefined\<close>. A call returns the chunk, the aggregate after the call, and the list of
  indices for which the generator was invoked during the call. The two \<^verbatim>\<open>LOGF\<close> lines
  only write to the log.
\<close>

definition getChunkedBuffer ::
  "(('c, 'b) BlockMesh \<Rightarrow> nat \<Rightarrow> 'b) \<Rightarrow> ('c, 'b) BlockMesh \<Rightarrow> nat
     \<Rightarrow> 'b \<times> ('c, 'b) BlockMesh \<times> nat list" where
  "getChunkedBuffer gen bm chunkIndex =
     (case bufferChunks bm chunkIndex of
        None \<Rightarrow>
          (let c = gen bm chunkIndex;
               bm' = bm\<lparr> bufferChunks := (bufferChunks bm)(chunkIndex \<mapsto> c) \<rparr>
           in (c, bm', [chunkIndex]))
      | Some c \<Rightarrow> (c, bm, []))"

text \<open>A sequence of calls on one aggregate, in order.\<close>

fun getChunkedBuffers ::
  "(('c, 'b) BlockMesh \<Rightarrow> nat \<Rightarrow> 'b) \<Rightarrow> ('c, 'b) BlockMesh \<Rightarrow> nat list
     \<Rightarrow> 'b list \<times> ('c, 'b) BlockMesh \<times> nat list" where
  "getChunkedBuffers gen bm [] = ([], bm, [])"
| "getChunkedBuffers gen bm (k # ks) =
     (case getChunkedBuffer gen bm k of (c, bm1, log1) \<Rightarrow>
        (case getChunkedBuffers gen bm1 ks of (cs, bm2, log2) \<Rightarrow>
           (c # cs, bm2, log1 @ log2)))"

text \<open>\<^verbatim>\<open>getAllChunkedBuffers\<close>.\<close>

definition getAllChunkedBuffers :: "('c, 'b) BlockMesh \<Rightarrow> nat \<Rightarrow> 'b option" where
  "getAllChunkedBuffers bm = bufferChunks bm"

section \<open>Notions used to state the properties\<close>

text \<open>
  The used-name list as the specification describes it: every name once, in the order of
  first occurrence.
\<close>

fun firstOccurrences :: "'a list \<Rightarrow> 'a list" where
  "firstOccurrences [] = []"
| "firstOccurrences (x # xs) = x # filter (\<lambda>y. y \<noteq> x) (firstOccurrences xs)"

text \<open>Lines 118-120 on the list of names alone.\<close>

definition pushIfNew :: "string list \<Rightarrow> string \<Rightarrow> string list" where
  "pushIfNew used n = (if n \<notin> set used then used @ [n] else used)"

text \<open>
  The stored values are in range when each lies between 0 and 15 and every occupied
  coordinate stores 0.
\<close>

definition lightOk :: "(Vector3 \<Rightarrow> bool) \<Rightarrow> LightMap \<Rightarrow> bool" where
  "lightOk occ L = (\<forall>e \<in> set L. 0 \<le> snd e \<and> snd e \<le> 15 \<and> (occ (fst e) \<longrightarrow> snd e = 0))"

text \<open>
  An entry is settled in a field when nothing is left to do for it: its coordinate is not
  tracked, or is occupied, or already stores at least the entry's value.
\<close>

definition settled :: "(Vector3 \<Rightarrow> bool) \<Rightarrow> LightMap \<Rightarrow> Action \<Rightarrow> bool" where
  "settled occ L n =
     (case map_of L (pos n) of None \<Rightarrow> True | Some w \<Rightarrow> occ (pos n) \<or> val n \<le> w)"

text \<open>
  The field is closed under the propagation rule when, for every lit coordinate, each of its
  six successor entries is settled or still on the worklist.
\<close>

definition closed :: "(Vector3 \<Rightarrow> bool) \<Rightarrow> LightMap \<Rightarrow> Action list \<Rightarrow> bool" where
  "closed occ L actions =
     (\<forall>p w. map_of L p = Some w \<and> 0 < w \<longrightarrow>
        (\<forall>n \<in> set (neighbours (Action p w)). settled occ L n \<or> n \<in> set actions))"

section \<open>Concrete inputs\<close>

text \<open>
  A two-block atlas and palette, an assigner that picks the first block of the collection
  it is given, collections that hold the atlas blocks named in the palette and not excluded,
  and a mesh of two stacked voxels: the lower one has nothing beneath it, the
  upper one rests on the lower.
\<close>

definition ex_atlas :: Atlas where
  "ex_atlas = [\<lparr> name = ''sand'' \<rparr>, \<lparr> name = ''stone'' \<rparr>]"

definition ex_assigner :: "unit TBlockAssigner" where
  "ex_assigner ap c q r cs coll = (case coll of [] \<Rightarrow> \<lparr> name = ''air'' \<rparr> | b # _ \<Rightarrow> b)"

definition ex_ext :: "unit Externals" where
  "ex_ext = \<lparr> Atlas_load = (\<lambda>_. Some ex_atlas),
              Palette_load = (\<lambda>_. Some [''sand'', ''stone'']),
              GetAssigner = (\<lambda>_. ex_assigner),
              createBlockCollection = (\<lambda>ap blocksToExclude.
                filter (\<lambda>b. name b \<in> set (ap_palette ap) \<and> name b \<notin> set blocksToExclude)
                  (ap_atlas ap)) \<rparr>"

definition ex_params :: "FallableBehaviour \<Rightarrow> AssignParams" where
  "ex_params mode = \<lparr> textureAtlas = ''vanilla'', blockPalette = ''all'',
                       blockAssigner = ''basic'', resolution = 32, colourSpace = LAB,
                       fallable = mode \<rparr>"

definition ex_mesh :: "unit VoxelMesh" where
  "ex_mesh = \<lparr> getVoxels = [\<lparr> position = Vector3 0 0 0, colour = () \<rparr>,
                            \<lparr> position = Vector3 0 1 0, colour = () \<rparr>],
               isVoxelAt = (\<lambda>q. q = Vector3 0 0 0 \<or> q = Vector3 0 1 0),
               getBounds = \<lparr> min_corner = Vector3 0 0 0, max_corner = Vector3 0 1 0 \<rparr> \<rparr>"

definition ex_blockMesh :: "(unit, unit) BlockMesh" where
  "ex_blockMesh = new_BlockMesh ex_atlas [''sand''] ex_mesh"

text \<open>A source with a single voxel at the origin, whose bounds are that voxel.\<close>

definition ex_single :: "unit VoxelMesh" where
  "ex_single = \<lparr> getVoxels = [\<lparr> position = Vector3 0 0 0, colour = () \<rparr>],
                 isVoxelAt = (\<lambda>q. q = Vector3 0 0 0),
                 getBounds = \<lparr> min_corner = Vector3 0 0 0, max_corner = Vector3 0 0 0 \<rparr> \<rparr>"

definition ex_singleMesh :: "(unit, unit) BlockMesh" where
  "ex_singleMesh = new_BlockMesh ex_atlas [''sand''] ex_single"

text \<open>
  A generator whose answer depends on how many chunks are already stored: asked twice for
  the same index it would answer differently, yet the calls return the same chunk.
\<close>

definition ex_gen :: "(unit, nat) BlockMesh \<Rightarrow> nat \<Rightarrow> nat" where
  "ex_gen bm k = (if bufferChunks bm 0 = None then 100 else 200) + k"

definition ex_cacheMesh :: "(unit, nat) BlockMesh" where
  "ex_cacheMesh = new_BlockMesh ex_atlas [''sand''] ex_mesh"

section \<open>Properties of the assignment pass\<close>

lemma assignVoxel_fst_frame:
  "fallableBlocks (fst (assignVoxel l v s)) = fallableBlocks (fst s)
   \<and> voxelMesh (fst (assignVoxel l v s)) = voxelMesh (fst s)
   \<and> atlas (fst (assignVoxel l v s)) = atlas (fst s)"
  by (cases s) (simp add: assignVoxel_def Let_def)

lemma assignVoxel_blocks:
  "blocks (fst (assignVoxel l v s)) =
     blocks (fst s) @ [\<lparr> voxel = v, blockInfo = finalBlock (fst s) l v \<rparr>]"
  by (cases s)
     (simp add: assignVoxel_def Let_def finalBlock_def shouldReplace_def)

lemma isFallable_cong:
  "fallableBlocks bm' = fallableBlocks bm \<Longrightarrow> isFallable bm' = isFallable bm"
  by (simp add: isFallable_def fun_eq_iff)

lemma isSupported_cong:
  "voxelMesh bm' = voxelMesh bm \<Longrightarrow> isSupported bm' = isSupported bm"
  by (simp add: isSupported_def fun_eq_iff)

lemma finalBlock_cong:
  "fallableBlocks bm' = fallableBlocks bm \<Longrightarrow> voxelMesh bm' = voxelMesh bm
   \<Longrightarrow> finalBlock bm' l = finalBlock bm l"
  by (simp add: finalBlock_def shouldReplace_def fun_eq_iff
        isFallable_cong [of bm' bm] isSupported_cong [of bm' bm])

lemma isFalling_cong:
  "fallableBlocks bm' = fallableBlocks bm \<Longrightarrow> voxelMesh bm' = voxelMesh bm
   \<Longrightarrow> isFalling bm' l = isFalling bm l"
  by (simp add: isFalling_def fun_eq_iff
        isFallable_cong [of bm' bm] isSupported_cong [of bm' bm])

lemma assignLoop_frame:
  "fallableBlocks (fst (assignLoop l vs s)) = fallableBlocks (fst s)
   \<and> voxelMesh (fst (assignLoop l vs s)) = voxelMesh (fst s)
   \<and> atlas (fst (assignLoop l vs s)) = atlas (fst s)"
  by (induction vs arbitrary: s) (simp_all add: assignVoxel_fst_frame)

lemma assignLoop_blocks:
  "blocks (fst (assignLoop l vs s)) =
     blocks (fst s) @ map (\<lambda>v. \<lparr> voxel = v, blockInfo = finalBlock (fst s) l v \<rparr>) vs"
proof (induction vs arbitrary: s)
  case Nil
  show ?case by simp
next
  case (Cons v vs)
  have eq: "finalBlock (fst (assignVoxel l v s)) l = finalBlock (fst s) l"
    by (rule finalBlock_cong) (simp_all add: assignVoxel_fst_frame)
  show ?case
    by (simp add: Cons.IH assignVoxel_blocks eq)
qed

lemma assignLoop_countFalling:
  "snd (assignLoop l vs s) = snd s + length (filter (isFalling (fst s) l) vs)"
proof (induction vs arbitrary: s)
  case Nil
  show ?case by simp
next
  case (Cons v vs)
  have eq: "isFalling (fst (assignVoxel l v s)) l = isFalling (fst s) l"
    by (rule isFalling_cong) (simp_all add: assignVoxel_fst_frame)
  have step: "snd (assignVoxel l v s) = snd s + (if isFalling (fst s) l v then 1 else 0)"
    by (cases s) (simp add: assignVoxel_def Let_def isFalling_def)
  show ?case
    by (simp add: Cons.IH eq step)
qed

lemma set_firstOccurrences: "set (firstOccurrences xs) = set xs"
  by (induction xs) auto

lemma distinct_firstOccurrences: "distinct (firstOccurrences xs)"
  by (induction xs) auto

lemma foldl_pushIfNew:
  "foldl pushIfNew acc ns = acc @ filter (\<lambda>y. y \<notin> set acc) (firstOccurrences ns)"
proof (induction ns arbitrary: acc)
  case Nil
  show ?case by simp
next
  case (Cons n ns)
  show ?case
  proof (cases "n \<in> set acc")
    case True
    have "filter (\<lambda>y. y \<notin> set acc) (filter (\<lambda>y. y \<noteq> n) (firstOccurrences ns))
          = filter (\<lambda>y. y \<notin> set acc) (firstOccurrences ns)"
      using True by (auto intro: filter_cong)
    moreover have "pushIfNew acc n = acc"
      using True by (simp add: pushIfNew_def)
    ultimately show ?thesis
      using True by (simp add: Cons.IH)
  next
    case False
    have "filter (\<lambda>y. y \<notin> set (acc @ [n])) (firstOccurrences ns)
          = filter (\<lambda>y. y \<notin> set acc) (filter (\<lambda>y. y \<noteq> n) (firstOccurrences ns))"
      by (auto intro: filter_cong)
    moreover have "pushIfNew acc n = acc @ [n]"
      using False by (simp add: pushIfNew_def)
    ultimately show ?thesis
      using False by (simp add: Cons.IH)
  qed
qed

lemma assignVoxel_blocksUsed:
  "blocksUsed (fst (assignVoxel l v s)) =
     pushIfNew (blocksUsed (fst s)) (name (finalBlock (fst s) l v))"
  by (cases s)
     (simp add: assignVoxel_def Let_def finalBlock_def shouldReplace_def pushIfNew_def)

lemma assignLoop_blocksUsed:
  "blocksUsed (fst (assignLoop l vs s)) =
     foldl pushIfNew (blocksUsed (fst s)) (map (\<lambda>v. name (finalBlock (fst s) l v)) vs)"
proof (induction vs arbitrary: s)
  case Nil
  show ?case by simp
next
  case (Cons v vs)
  have eq: "finalBlock (fst (assignVoxel l v s)) l = finalBlock (fst s) l"
    by (rule finalBlock_cong) (simp_all add: assignVoxel_fst_frame)
  show ?case
    by (simp add: Cons.IH assignVoxel_blocksUsed eq)
qed

text \<open>The successful run of \<^verbatim>\<open>_assignBlocks\<close>, in terms of the loop.\<close>

lemma assignBlocks_Inr:
  assumes "Atlas_load ext (textureAtlas params) = Some a"
    and "Palette_load ext (blockPalette params) = Some p"
  shows "assignBlocks ext params bm =
     Inr (fst (assignLoop (assignLocals ext (bm\<lparr> atlas := a \<rparr>) params a p)
                 (getVoxels (voxelMesh bm)) (bm\<lparr> atlas := a \<rparr>, 0)),
          if fallable params = DoNothing
             \<and> snd (assignLoop (assignLocals ext (bm\<lparr> atlas := a \<rparr>) params a p)
                      (getVoxels (voxelMesh bm)) (bm\<lparr> atlas := a \<rparr>, 0)) > 0
          then [(''warning'',
                 snd (assignLoop (assignLocals ext (bm\<lparr> atlas := a \<rparr>) params a p)
                        (getVoxels (voxelMesh bm)) (bm\<lparr> atlas := a \<rparr>, 0)))]
          else [])"
  using assms by (simp add: assignBlocks_def Let_def split: prod.splits)

text \<open>What the final block of a voxel is, written out on the fresh aggregate.\<close>

lemma finalBlock_new:
  "finalBlock ((new_BlockMesh va fb vm)\<lparr> atlas := a \<rparr>)
     (assignLocals ext ((new_BlockMesh va fb vm)\<lparr> atlas := a \<rparr>) params a p) v =
   (let asg = GetAssigner ext (blockAssigner params);
        ap = \<lparr> ap_atlas = a, ap_palette = p \<rparr>;
        cand = asg ap (colour v) (position v) (resolution params) (colourSpace params)
                 (createBlockCollection ext ap []);
        below = Vector3 (vx (position v)) (vy (position v) - 1) (vz (position v))
    in if (fallable params = ReplaceFallable \<and> name cand \<in> set fb)
          \<or> (fallable params = ReplaceFalling \<and> name cand \<in> set fb \<and> \<not> isVoxelAt vm below)
       then asg ap (colour v) (position v) (resolution params) RGB (createBlockCollection ext ap fb)
       else cand)"
  by (simp add: finalBlock_def shouldReplace_def isFallable_def isSupported_def
        candidateBlock_def replacedBlock_def assignLocals_def new_BlockMesh_def Let_def
        Vector3_add_def)

lemma isFalling_new:
  "isFalling ((new_BlockMesh va fb vm)\<lparr> atlas := a \<rparr>)
     (assignLocals ext ((new_BlockMesh va fb vm)\<lparr> atlas := a \<rparr>) params a p) v =
   (let asg = GetAssigner ext (blockAssigner params);
        ap = \<lparr> ap_atlas = a, ap_palette = p \<rparr>;
        cand = asg ap (colour v) (position v) (resolution params) (colourSpace params)
                 (createBlockCollection ext ap []);
        below = Vector3 (vx (position v)) (vy (position v) - 1) (vz (position v))
    in name cand \<in> set fb \<and> \<not> isVoxelAt vm below)"
  by (simp add: isFalling_def isFallable_def isSupported_def
        candidateBlock_def assignLocals_def new_BlockMesh_def Let_def Vector3_add_def)

lemma ex_run:
  "assignBlocks ex_ext (ex_params mode) ex_blockMesh =
     Inr (ex_blockMesh\<lparr>
            blocksUsed := (if mode = ReplaceFallable then [''stone'']
                           else if mode = ReplaceFalling then [''stone'', ''sand'']
                           else [''sand'']),
            blocks := [\<lparr> voxel = \<lparr> position = Vector3 0 0 0, colour = () \<rparr>,
                         blockInfo = \<lparr> name = (if mode = ReplaceFallable \<or> mode = ReplaceFalling
                                                 then ''stone'' else ''sand'') \<rparr> \<rparr>,
                       \<lparr> voxel = \<lparr> position = Vector3 0 1 0, colour = () \<rparr>,
                         blockInfo = \<lparr> name = (if mode = ReplaceFallable
                                                 then ''stone'' else ''sand'') \<rparr> \<rparr>] \<rparr>,
          if mode = DoNothing then [(''warning'', 1)] else [])"
  by (cases mode)
     (simp_all add: assignBlocks_def ex_ext_def ex_params_def ex_blockMesh_def
        new_BlockMesh_def ex_mesh_def ex_atlas_def ex_assigner_def assignLocals_def
        assignVoxel_def candidateBlock_def replacedBlock_def
        isFallable_def isSupported_def Vector3_add_def Let_def)

section \<open>Claims about the assignment pass\<close>

text \<open>
  C1. For every voxel source, once atlas and palette are resolved, the assignment pass on a
  freshly constructed aggregate succeeds and leaves exactly one Block per input voxel, in
  the same order: the blocks list is as long as the voxel list, and the voxel of the i-th
  block is the i-th voxel of the source.
\<close>

theorem C1_one_block_per_voxel:
  fixes ext :: "'c Externals" and vm :: "'c VoxelMesh"
  assumes "Atlas_load ext (textureAtlas params) = Some a"
    and "Palette_load ext (blockPalette params) = Some p"
  shows "\<exists>bm' st. assignBlocks ext params (new_BlockMesh va fb vm :: ('c, 'b) BlockMesh) = Inr (bm', st)
           \<and> length (blocks bm') = length (getVoxels vm)
           \<and> (\<forall>i < length (getVoxels vm). voxel (blocks bm' ! i) = getVoxels vm ! i)"
proof -
  let ?bm = "new_BlockMesh va fb vm :: ('c, 'b) BlockMesh"
  let ?R = "assignLoop (assignLocals ext (?bm\<lparr> atlas := a \<rparr>) params a p)
              (getVoxels (voxelMesh ?bm)) (?bm\<lparr> atlas := a \<rparr>, 0)"
  have vm: "getVoxels (voxelMesh ?bm) = getVoxels vm"
    by (simp add: new_BlockMesh_def)
  have bl: "blocks (fst ?R) =
      map (\<lambda>v. \<lparr> voxel = v, blockInfo = finalBlock (?bm\<lparr> atlas := a \<rparr>)
                   (assignLocals ext (?bm\<lparr> atlas := a \<rparr>) params a p) v \<rparr>) (getVoxels vm)"
    by (simp add: assignLoop_blocks vm) (simp add: new_BlockMesh_def)
  have "length (blocks (fst ?R)) = length (getVoxels vm)"
    by (simp add: bl)
  moreover have "\<forall>i < length (getVoxels vm). voxel (blocks (fst ?R) ! i) = getVoxels vm ! i"
    by (simp add: bl)
  ultimately show ?thesis
    unfolding assignBlocks_Inr [OF assms] by blast
qed

theorem C1_one_block_per_voxel_witness:
  "\<exists>bm' st. assignBlocks ex_ext (ex_params DoNothing) ex_blockMesh = Inr (bm', st)
      \<and> length (blocks bm') = 2
      \<and> voxel (blocks bm' ! 0) = \<lparr> position = Vector3 0 0 0, colour = () \<rparr>
      \<and> voxel (blocks bm' ! 1) = \<lparr> position = Vector3 0 1 0, colour = () \<rparr>"
proof -
  have A: "Atlas_load ex_ext (textureAtlas (ex_params DoNothing)) = Some ex_atlas"
    by (simp add: ex_ext_def)
  have P: "Palette_load ex_ext (blockPalette (ex_params DoNothing)) = Some [''sand'', ''stone'']"
    by (simp add: ex_ext_def)
  from C1_one_block_per_voxel [OF A P, of ex_atlas "[''sand'']" ex_mesh]
  obtain bm' :: "(unit, unit) BlockMesh" and st
    where r: "assignBlocks ex_ext (ex_params DoNothing) ex_blockMesh = Inr (bm', st)"
      and n: "length (blocks bm') = length (getVoxels ex_mesh)"
      and e: "\<forall>i < length (getVoxels ex_mesh). voxel (blocks bm' ! i) = getVoxels ex_mesh ! i"
    unfolding ex_blockMesh_def by blast
  have "length (blocks bm') = 2"
    using n by (simp add: ex_mesh_def)
  moreover have "voxel (blocks bm' ! 0) = \<lparr> position = Vector3 0 0 0, colour = () \<rparr>"
    using e [rule_format, of 0] by (simp add: ex_mesh_def)
  moreover have "voxel (blocks bm' ! 1) = \<lparr> position = Vector3 0 1 0, colour = () \<rparr>"
    using e [rule_format, of 1] by (simp add: ex_mesh_def)
  ultimately show ?thesis
    using r by blast
qed

text \<open>
  C2. For every voxel, the block stored for it is the candidate (the assigner applied to the
  collection of all blocks in the configured colour space) unless the mode is
  replace-fallable and the candidate's name is fallable, or the mode is replace-falling, the
  candidate's name is fallable and no voxel is directly below; exactly in these two cases it
  is the result of calling the assigner again on the non-fallable collection with colour
  space RGB, whatever colour space is configured. Support plays no role under
  replace-fallable.
\<close>

theorem C2_replacement_rule:
  fixes ext :: "'c Externals" and vm :: "'c VoxelMesh"
  assumes "Atlas_load ext (textureAtlas params) = Some a"
    and "Palette_load ext (blockPalette params) = Some p"
  shows "\<exists>bm' st. assignBlocks ext params (new_BlockMesh va fb vm :: ('c, 'b) BlockMesh) = Inr (bm', st)
     \<and> (\<forall>i < length (getVoxels vm).
          let v = getVoxels vm ! i;
              asg = GetAssigner ext (blockAssigner params);
              ap = \<lparr> ap_atlas = a, ap_palette = p \<rparr>;
              cand = asg ap (colour v) (position v) (resolution params) (colourSpace params)
                       (createBlockCollection ext ap []);
              below = Vector3 (vx (position v)) (vy (position v) - 1) (vz (position v));
              replace = ((fallable params = ReplaceFallable \<and> name cand \<in> set fb)
                         \<or> (fallable params = ReplaceFalling \<and> name cand \<in> set fb
                              \<and> \<not> isVoxelAt vm below))
          in shouldReplace ((new_BlockMesh va fb vm :: ('c, 'b) BlockMesh)\<lparr> atlas := a \<rparr>)
               (assignLocals ext ((new_BlockMesh va fb vm :: ('c, 'b) BlockMesh)\<lparr> atlas := a \<rparr>) params a p) v
               = replace
             \<and> blockInfo (blocks bm' ! i) =
                 (if replace
                  then asg ap (colour v) (position v) (resolution params) RGB
                         (createBlockCollection ext ap fb)
                  else cand))"
proof -
  let ?bm = "new_BlockMesh va fb vm :: ('c, 'b) BlockMesh"
  let ?l = "assignLocals ext (?bm\<lparr> atlas := a \<rparr>) params a p"
  let ?R = "assignLoop ?l (getVoxels (voxelMesh ?bm)) (?bm\<lparr> atlas := a \<rparr>, 0)"
  have vm: "getVoxels (voxelMesh ?bm) = getVoxels vm"
    by (simp add: new_BlockMesh_def)
  have bl: "blocks (fst ?R) =
      map (\<lambda>v. \<lparr> voxel = v, blockInfo = finalBlock (?bm\<lparr> atlas := a \<rparr>) ?l v \<rparr>) (getVoxels vm)"
    by (simp add: assignLoop_blocks vm) (simp add: new_BlockMesh_def)
  have sr: "shouldReplace (?bm\<lparr> atlas := a \<rparr>) ?l v =
      ((fallable params = ReplaceFallable
          \<and> name (GetAssigner ext (blockAssigner params) \<lparr> ap_atlas = a, ap_palette = p \<rparr>
                    (colour v) (position v) (resolution params) (colourSpace params)
                    (createBlockCollection ext \<lparr> ap_atlas = a, ap_palette = p \<rparr> [])) \<in> set fb)
       \<or> (fallable params = ReplaceFalling
          \<and> name (GetAssigner ext (blockAssigner params) \<lparr> ap_atlas = a, ap_palette = p \<rparr>
                    (colour v) (position v) (resolution params) (colourSpace params)
                    (createBlockCollection ext \<lparr> ap_atlas = a, ap_palette = p \<rparr> [])) \<in> set fb
          \<and> \<not> isVoxelAt vm (Vector3 (vx (position v)) (vy (position v) - 1) (vz (position v)))))"
    for v
    by (simp add: shouldReplace_def isFallable_def isSupported_def candidateBlock_def
          assignLocals_def new_BlockMesh_def Let_def Vector3_add_def)
  have "\<forall>i < length (getVoxels vm).
          blockInfo (blocks (fst ?R) ! i) = finalBlock (?bm\<lparr> atlas := a \<rparr>) ?l (getVoxels vm ! i)"
    by (simp add: bl)
  then show ?thesis
    unfolding assignBlocks_Inr [OF assms] finalBlock_new sr
    by (simp add: Let_def)
qed

theorem C2_replacement_rule_witness:
  "\<exists>bm' st. assignBlocks ex_ext (ex_params ReplaceFallable) ex_blockMesh = Inr (bm', st)
      \<and> isVoxelAt ex_mesh (Vector3 0 0 0)
      \<and> blockInfo (blocks bm' ! 1) = \<lparr> name = ''stone'' \<rparr>"
proof -
  have A: "Atlas_load ex_ext (textureAtlas (ex_params ReplaceFallable)) = Some ex_atlas"
    by (simp add: ex_ext_def)
  have P: "Palette_load ex_ext (blockPalette (ex_params ReplaceFallable))
             = Some [''sand'', ''stone'']"
    by (simp add: ex_ext_def)
  from C2_replacement_rule [OF A P, of ex_atlas "[''sand'']" ex_mesh]
  obtain bm' :: "(unit, unit) BlockMesh" and st
    where r: "assignBlocks ex_ext (ex_params ReplaceFallable) ex_blockMesh = Inr (bm', st)"
      and e: "blockInfo (blocks bm' ! 1) = \<lparr> name = ''stone'' \<rparr>"
    unfolding ex_blockMesh_def
    by (auto simp: Let_def ex_mesh_def ex_ext_def ex_params_def ex_atlas_def ex_assigner_def)
  moreover have "isVoxelAt ex_mesh (Vector3 0 0 0)"
    by (simp add: ex_mesh_def)
  ultimately show ?thesis
    by blast
qed

text \<open>
  C6. Under mode do-nothing no candidate is ever replaced: every stored block is the
  candidate. After the pass, the status entries are exactly one warning citing the number of
  falling blocks (voxels whose candidate name is fallable and which have no voxel directly
  below) when the mode is do-nothing and that number is nonzero, and no entry at all
  otherwise.
\<close>

theorem C6_do_nothing_warning:
  fixes ext :: "'c Externals" and vm :: "'c VoxelMesh"
  assumes "Atlas_load ext (textureAtlas params) = Some a"
    and "Palette_load ext (blockPalette params) = Some p"
  shows "\<exists>bm' st. assignBlocks ext params (new_BlockMesh va fb vm :: ('c, 'b) BlockMesh)
                     = Inr (bm', st)
     \<and> (let asg = GetAssigner ext (blockAssigner params);
             ap = \<lparr> ap_atlas = a, ap_palette = p \<rparr>;
             cand = (\<lambda>v. asg ap (colour v) (position v) (resolution params)
                             (colourSpace params) (createBlockCollection ext ap []));
             below = (\<lambda>v. Vector3 (vx (position v)) (vy (position v) - 1) (vz (position v)));
             n = length (filter (\<lambda>v. name (cand v) \<in> set fb \<and> \<not> isVoxelAt vm (below v))
                           (getVoxels vm))
         in st = (if fallable params = DoNothing \<and> 0 < n then [(''warning'', n)] else [])
            \<and> (fallable params = DoNothing \<longrightarrow>
                 (\<forall>i < length (getVoxels vm).
                    blockInfo (blocks bm' ! i) = cand (getVoxels vm ! i))))"
proof -
  let ?bm = "new_BlockMesh va fb vm :: ('c, 'b) BlockMesh"
  let ?l = "assignLocals ext (?bm\<lparr> atlas := a \<rparr>) params a p"
  let ?R = "assignLoop ?l (getVoxels (voxelMesh ?bm)) (?bm\<lparr> atlas := a \<rparr>, 0)"
  have vm: "getVoxels (voxelMesh ?bm) = getVoxels vm"
    by (simp add: new_BlockMesh_def)
  have bl: "blocks (fst ?R) =
      map (\<lambda>v. \<lparr> voxel = v, blockInfo = finalBlock (?bm\<lparr> atlas := a \<rparr>) ?l v \<rparr>) (getVoxels vm)"
    by (simp add: assignLoop_blocks vm) (simp add: new_BlockMesh_def)
  have cnt: "snd ?R = length (filter (isFalling (?bm\<lparr> atlas := a \<rparr>) ?l) (getVoxels vm))"
    by (simp add: assignLoop_countFalling vm)
  have fin: "\<forall>i < length (getVoxels vm).
          blockInfo (blocks (fst ?R) ! i) = finalBlock (?bm\<lparr> atlas := a \<rparr>) ?l (getVoxels vm ! i)"
    by (simp add: bl)
  show ?thesis
    unfolding assignBlocks_Inr [OF assms]
    using fin unfolding cnt finalBlock_new isFalling_new
    by (simp add: Let_def)
qed

theorem C6_do_nothing_warning_witness:
  "\<exists>bm' st. assignBlocks ex_ext (ex_params DoNothing) ex_blockMesh = Inr (bm', st)
      \<and> st = [(''warning'', 1)]
      \<and> blockInfo (blocks bm' ! 0) = \<lparr> name = ''sand'' \<rparr>
      \<and> blockInfo (blocks bm' ! 1) = \<lparr> name = ''sand'' \<rparr>"
proof -
  have A: "Atlas_load ex_ext (textureAtlas (ex_params DoNothing)) = Some ex_atlas"
    by (simp add: ex_ext_def)
  have P: "Palette_load ex_ext (blockPalette (ex_params DoNothing)) = Some [''sand'', ''stone'']"
    by (simp add: ex_ext_def)
  from C6_do_nothing_warning [OF A P, of ex_atlas "[''sand'']" ex_mesh]
  show ?thesis
    unfolding ex_blockMesh_def
    by (auto simp: Let_def ex_mesh_def ex_ext_def ex_params_def ex_atlas_def ex_assigner_def)
qed

text \<open>
  C8. After assignment the used-block-name list holds every name assigned to some voxel
  exactly once: it has no duplicates, its elements are exactly the names of the stored
  blocks, and it is ordered by first occurrence in the in-order pass over the voxels.
\<close>

theorem C8_blocksUsed_first_occurrences:
  fixes ext :: "'c Externals" and vm :: "'c VoxelMesh"
  assumes "Atlas_load ext (textureAtlas params) = Some a"
    and "Palette_load ext (blockPalette params) = Some p"
  shows "\<exists>bm' st. assignBlocks ext params (new_BlockMesh va fb vm :: ('c, 'b) BlockMesh)
                     = Inr (bm', st)
     \<and> blocksUsed bm' = firstOccurrences (map (\<lambda>b. name (blockInfo b)) (blocks bm'))
     \<and> distinct (blocksUsed bm')
     \<and> set (blocksUsed bm') = (\<lambda>b. name (blockInfo b)) ` set (blocks bm')"
proof -
  let ?bm = "new_BlockMesh va fb vm :: ('c, 'b) BlockMesh"
  let ?l = "assignLocals ext (?bm\<lparr> atlas := a \<rparr>) params a p"
  let ?R = "assignLoop ?l (getVoxels (voxelMesh ?bm)) (?bm\<lparr> atlas := a \<rparr>, 0)"
  let ?names = "map (\<lambda>v. name (finalBlock (?bm\<lparr> atlas := a \<rparr>) ?l v)) (getVoxels vm)"
  have vm: "getVoxels (voxelMesh ?bm) = getVoxels vm"
    by (simp add: new_BlockMesh_def)
  have bl: "blocks (fst ?R) =
      map (\<lambda>v. \<lparr> voxel = v, blockInfo = finalBlock (?bm\<lparr> atlas := a \<rparr>) ?l v \<rparr>) (getVoxels vm)"
    by (simp add: assignLoop_blocks vm) (simp add: new_BlockMesh_def)
  have names: "map (\<lambda>b. name (blockInfo b)) (blocks (fst ?R)) = ?names"
    by (simp add: bl o_def)
  have "blocksUsed (fst ?R) = foldl pushIfNew [] ?names"
    by (simp add: assignLoop_blocksUsed vm) (simp add: new_BlockMesh_def)
  then have used: "blocksUsed (fst ?R) = firstOccurrences ?names"
    by (simp add: foldl_pushIfNew)
  have "blocksUsed (fst ?R) = firstOccurrences (map (\<lambda>b. name (blockInfo b)) (blocks (fst ?R)))"
    by (simp only: used names)
  moreover have "distinct (blocksUsed (fst ?R))"
    by (simp only: used distinct_firstOccurrences)
  moreover have "set (blocksUsed (fst ?R)) = (\<lambda>b. name (blockInfo b)) ` set (blocks (fst ?R))"
    by (simp only: used set_firstOccurrences names [symmetric] set_map)
  ultimately show ?thesis
    unfolding assignBlocks_Inr [OF assms] by blast
qed

theorem C8_blocksUsed_first_occurrences_witness:
  "\<exists>bm' st. assignBlocks ex_ext (ex_params ReplaceFalling) ex_blockMesh = Inr (bm', st)
      \<and> map (\<lambda>b. name (blockInfo b)) (blocks bm') = [''stone'', ''sand'']
      \<and> blocksUsed bm' = [''stone'', ''sand'']"
proof -
  have A: "Atlas_load ex_ext (textureAtlas (ex_params ReplaceFalling)) = Some ex_atlas"
    by (simp add: ex_ext_def)
  have P: "Palette_load ex_ext (blockPalette (ex_params ReplaceFalling))
             = Some [''sand'', ''stone'']"
    by (simp add: ex_ext_def)
  from C8_blocksUsed_first_occurrences [OF A P, of ex_atlas "[''sand'']" ex_mesh]
  obtain bm' :: "(unit, unit) BlockMesh" and st
    where r: "assignBlocks ex_ext (ex_params ReplaceFalling) ex_blockMesh = Inr (bm', st)"
      and u: "blocksUsed bm' = firstOccurrences (map (\<lambda>b. name (blockInfo b)) (blocks bm'))"
    unfolding ex_blockMesh_def by blast
  have "bm' = fst (bm', st)"
    by simp
  also have "(bm', st) = projr (assignBlocks ex_ext (ex_params ReplaceFalling) ex_blockMesh)"
    by (simp add: r)
  finally have b: "map (\<lambda>b. name (blockInfo b)) (blocks bm') = [''stone'', ''sand'']"
    by (simp add: ex_run)
  have c: "blocksUsed bm' = [''stone'', ''sand'']"
    unfolding u b by simp
  show ?thesis
    by (rule exI [of _ bm'], rule exI [of _ st]) (simp add: r b c)
qed

text \<open>
  C10. Assume that, for every voxel of the source, the assigner returns a block of the
  collection it is given, whichever of the two collections built by the pass that is and
  whatever the colour space, and that the collection built with the fallable names excluded
  holds no block with a fallable name. Then under mode replace-fallable no block of the
  resulting mesh has a name in the fallable-name set.
\<close>

theorem C10_replace_fallable_no_fallable:
  fixes ext :: "'c Externals" and vm :: "'c VoxelMesh"
  assumes "Atlas_load ext (textureAtlas params) = Some a"
    and "Palette_load ext (blockPalette params) = Some p"
    and "fallable params = ReplaceFallable"
    and "\<forall>v \<in> set (getVoxels vm). \<forall>cs.
           \<forall>coll \<in> {createBlockCollection ext \<lparr> ap_atlas = a, ap_palette = p \<rparr> [],
                      createBlockCollection ext \<lparr> ap_atlas = a, ap_palette = p \<rparr> fb}.
             GetAssigner ext (blockAssigner params) \<lparr> ap_atlas = a, ap_palette = p \<rparr>
               (colour v) (position v) (resolution params) cs coll \<in> set coll"
    and "\<forall>b \<in> set (createBlockCollection ext \<lparr> ap_atlas = a, ap_palette = p \<rparr> fb).
           name b \<notin> set fb"
  shows "\<exists>bm' st. assignBlocks ext params (new_BlockMesh va fb vm :: ('c, 'b) BlockMesh)
                     = Inr (bm', st)
     \<and> (\<forall>b \<in> set (blocks bm'). name (blockInfo b) \<notin> set fb)"
proof -
  let ?bm = "new_BlockMesh va fb vm :: ('c, 'b) BlockMesh"
  let ?l = "assignLocals ext (?bm\<lparr> atlas := a \<rparr>) params a p"
  let ?R = "assignLoop ?l (getVoxels (voxelMesh ?bm)) (?bm\<lparr> atlas := a \<rparr>, 0)"
  let ?ap = "\<lparr> ap_atlas = a, ap_palette = p \<rparr>"
  have vm: "getVoxels (voxelMesh ?bm) = getVoxels vm"
    by (simp add: new_BlockMesh_def)
  have bl: "blocks (fst ?R) =
      map (\<lambda>v. \<lparr> voxel = v, blockInfo = finalBlock (?bm\<lparr> atlas := a \<rparr>) ?l v \<rparr>) (getVoxels vm)"
    by (simp add: assignLoop_blocks vm) (simp add: new_BlockMesh_def)
  have nf: "name b \<notin> set fb" if "b \<in> set (createBlockCollection ext ?ap fb)" for b
    using that assms(5) by blast
  have "name (finalBlock (?bm\<lparr> atlas := a \<rparr>) ?l v) \<notin> set fb" if v: "v \<in> set (getVoxels vm)" for v
  proof -
    have "GetAssigner ext (blockAssigner params) ?ap (colour v) (position v)
            (resolution params) RGB (createBlockCollection ext ?ap fb)
          \<in> set (createBlockCollection ext ?ap fb)"
      using assms(4) v by blast
    then show ?thesis
      unfolding finalBlock_new using assms(3) nf by (simp add: Let_def)
  qed
  then have "\<forall>b \<in> set (blocks (fst ?R)). name (blockInfo b) \<notin> set fb"
    by (auto simp: bl)
  then show ?thesis
    unfolding assignBlocks_Inr [OF assms(1,2)] by blast
qed

theorem C10_replace_fallable_no_fallable_witness:
  "\<exists>bm' st. assignBlocks ex_ext (ex_params ReplaceFallable) ex_blockMesh = Inr (bm', st)
      \<and> name (blockInfo (blocks bm' ! 0)) \<noteq> ''sand''"
proof -
  have A: "Atlas_load ex_ext (textureAtlas (ex_params ReplaceFallable)) = Some ex_atlas"
    by (simp add: ex_ext_def)
  have P: "Palette_load ex_ext (blockPalette (ex_params ReplaceFallable))
             = Some [''sand'', ''stone'']"
    by (simp add: ex_ext_def)
  have M: "fallable (ex_params ReplaceFallable) = ReplaceFallable"
    by (simp add: ex_params_def)
  have H: "\<forall>v \<in> set (getVoxels ex_mesh). \<forall>cs.
           \<forall>coll \<in> {createBlockCollection ex_ext
                        \<lparr> ap_atlas = ex_atlas, ap_palette = [''sand'', ''stone''] \<rparr> [],
                      createBlockCollection ex_ext
                        \<lparr> ap_atlas = ex_atlas, ap_palette = [''sand'', ''stone''] \<rparr> [''sand'']}.
             GetAssigner ex_ext (blockAssigner (ex_params ReplaceFallable))
               \<lparr> ap_atlas = ex_atlas, ap_palette = [''sand'', ''stone''] \<rparr>
               (colour v) (position v) (resolution (ex_params ReplaceFallable)) cs coll
             \<in> set coll"
    by (simp add: ex_ext_def ex_atlas_def ex_assigner_def)
  have E: "\<forall>b \<in> set (createBlockCollection ex_ext
                        \<lparr> ap_atlas = ex_atlas, ap_palette = [''sand'', ''stone''] \<rparr> [''sand'']).
             name b \<notin> set [''sand'']"
    by (simp add: ex_ext_def ex_atlas_def)
  from C10_replace_fallable_no_fallable [OF A P M H E, of ex_atlas]
  obtain bm' :: "(unit, unit) BlockMesh" and st
    where r: "assignBlocks ex_ext (ex_params ReplaceFallable) ex_blockMesh = Inr (bm', st)"
      and e: "\<forall>b \<in> set (blocks bm'). name (blockInfo b) \<notin> set [''sand'']"
    unfolding ex_blockMesh_def by blast
  have "bm' = fst (projr (assignBlocks ex_ext (ex_params ReplaceFallable) ex_blockMesh))"
    by (simp add: r)
  then have "blocks bm' \<noteq> []"
    by (simp add: ex_run)
  then have "blocks bm' ! 0 \<in> set (blocks bm')"
    by simp
  with e have c: "name (blockInfo (blocks bm' ! 0)) \<noteq> ''sand''"
    by auto
  show ?thesis
    by (rule exI [of _ bm'], rule exI [of _ st]) (simp add: r c)
qed

section \<open>Properties of the lighting pass\<close>

subsection \<open>Initialisation\<close>

lemma lightingCells_iff:
  "p \<in> set (lightingCells b) \<longleftrightarrow>
     vx (min_corner b) - 1 \<le> vx p \<and> vx p \<le> vx (max_corner b) + 1
     \<and> vy (min_corner b) - 1 \<le> vy p \<and> vy p \<le> vy (max_corner b) + 1
     \<and> vz (min_corner b) - 1 \<le> vz p \<and> vz p \<le> vz (max_corner b) + 1"
  by (cases p) (auto simp: lightingCells_def image_iff)

lemma map_of_foldl_update:
  "map_of (foldl (\<lambda>m p. AList.update p v m) m0 ps) q =
     (if q \<in> set ps then Some v else map_of m0 q)"
  by (induction ps arbitrary: m0) (auto simp: update_conv')

lemma set_foldl_update:
  "e \<in> set (foldl (\<lambda>m p. AList.update p v m) m0 ps) \<Longrightarrow> e \<in> set m0 \<or> snd e = v"
proof (induction ps arbitrary: m0)
  case Nil
  then show ?case by simp
next
  case (Cons p ps)
  from Cons.IH [of "AList.update p v m0"] Cons.prems
  have "e \<in> set (AList.update p v m0) \<or> snd e = v" by simp
  with set_update_subset [of p v m0] show ?case by auto
qed

lemma map_of_initLighting:
  "map_of (initLighting b) p = (if p \<in> set (lightingCells b) then Some 0 else None)"
  by (simp add: initLighting_def map_of_foldl_update)

lemma set_initLighting: "e \<in> set (initLighting b) \<Longrightarrow> snd e = 0"
  using set_foldl_update [of e 0 "[]" "lightingCells b"] by (simp add: initLighting_def)

lemma foldl_push: "foldl push rest xs = rev xs @ rest"
  by (induction xs arbitrary: rest) (simp_all add: push_def)

lemma concat_map_product:
  "concat (map (\<lambda>x. map (f x) zs) xs) = map (\<lambda>(x, z). f x z) (List.product xs zs)"
  by (induction xs) simp_all

lemma initActions_eq:
  "initActions b =
     rev (map (\<lambda>(x, z). Action (Vector3 x (vy (max_corner b) + 1) z) 15)
            (List.product [vx (min_corner b) - 1 .. vx (max_corner b) + 1]
                          [vz (min_corner b) - 1 .. vz (max_corner b) + 1]))"
  by (simp add: initActions_def foldl_push concat_map_product)

lemma set_initActions:
  "set (initActions b) =
     {Action (Vector3 x (vy (max_corner b) + 1) z) 15 | x z.
        vx (min_corner b) - 1 \<le> x \<and> x \<le> vx (max_corner b) + 1
        \<and> vz (min_corner b) - 1 \<le> z \<and> z \<le> vz (max_corner b) + 1}"
  by (auto simp: initActions_eq)

lemma distinct_pos_initActions: "distinct (map pos (initActions b))"
proof -
  have "distinct (map (\<lambda>x. Vector3 (fst x) (vy (max_corner b) + 1) (snd x))
            (List.product [vx (min_corner b) - 1 .. vx (max_corner b) + 1]
                          [vz (min_corner b) - 1 .. vz (max_corner b) + 1]))"
    by (auto simp: distinct_map distinct_product inj_on_def)
  then show ?thesis
    by (simp add: initActions_eq rev_map [symmetric] o_def case_prod_beta)
qed

subsection \<open>Range of the stored values\<close>

lemma lightingStep_cases:
  obtains (update) cur where "map_of L (pos a) = Some cur" "cur < val a" "\<not> occ (pos a)"
      "lightingStep occ L a rest = (AList.update (pos a) (val a) L, foldl push rest (neighbours a))"
  | (skip) "lightingStep occ L a rest = (L, rest)"
      "map_of L (pos a) = None \<or> occ (pos a) \<or> (\<exists>cur. map_of L (pos a) = Some cur \<and> val a \<le> cur)"
proof (cases "map_of L (pos a)")
  case None
  then have "lightingStep occ L a rest = (L, rest)"
    by (simp add: lightingStep_def)
  with None skip show ?thesis by blast
next
  case (Some cur)
  show ?thesis
  proof (cases "cur < val a \<and> \<not> occ (pos a)")
    case True
    with Some have "lightingStep occ L a rest =
        (AList.update (pos a) (val a) L, foldl push rest (neighbours a))"
      by (simp add: lightingStep_def)
    with Some True update show ?thesis by blast
  next
    case False
    with Some have "lightingStep occ L a rest = (L, rest)"
      by (auto simp: lightingStep_def)
    moreover from False Some
    have "occ (pos a) \<or> (\<exists>cur. map_of L (pos a) = Some cur \<and> val a \<le> cur)"
      by auto
    ultimately show ?thesis using skip by blast
  qed
qed

lemma lightingStep_ok:
  assumes "lightOk occ L" and "\<forall>n \<in> set (a # rest). val n \<le> 15"
  shows "lightOk occ (fst (lightingStep occ L a rest))
         \<and> (\<forall>n \<in> set (snd (lightingStep occ L a rest)). val n \<le> 15)"
proof (cases rule: lightingStep_cases [of L a occ rest])
  case (update cur)
  from update(1) have "(pos a, cur) \<in> set L" by (rule map_of_SomeD)
  with assms(1) have "0 \<le> cur" by (auto simp: lightOk_def)
  with update(2) assms(2) have va: "0 \<le> val a" "val a \<le> 15" by auto
  have "lightOk occ (AList.update (pos a) (val a) L)"
    unfolding lightOk_def
  proof
    fix e assume "e \<in> set (AList.update (pos a) (val a) L)"
    with set_update_subset [of "pos a" "val a" L]
    have "e = (pos a, val a) \<or> e \<in> set L" by blast
    then show "0 \<le> snd e \<and> snd e \<le> 15 \<and> (occ (fst e) \<longrightarrow> snd e = 0)"
      using va update(3) assms(1) by (auto simp: lightOk_def)
  qed
  moreover have "\<forall>n \<in> set (foldl push rest (neighbours a)). val n \<le> 15"
    using assms(2) va by (auto simp: set_foldl_push dest: val_neighbours)
  ultimately show ?thesis by (simp add: update(4))
next
  case skip
  with assms show ?thesis by simp
qed

lemma lightingLoop_ok:
  "lightOk occ L \<Longrightarrow> \<forall>n \<in> set actions. val n \<le> 15 \<Longrightarrow> lightOk occ (lightingLoop occ L actions)"
proof (induction occ L actions rule: lightingLoop.induct)
  case (1 occ L)
  then show ?case by simp
next
  case (2 occ L a rest)
  from lightingStep_ok [OF "2.prems"] "2.IH" show ?case by simp
qed

subsection \<open>The domain is fixed and the values only grow\<close>

lemma lightingStep_None:
  "map_of L p = None \<Longrightarrow> map_of (fst (lightingStep occ L a rest)) p = None"
  by (cases rule: lightingStep_cases [of L a occ rest]) (auto simp: update_conv')

lemma lightingStep_mono:
  "map_of L p = Some w \<Longrightarrow> \<exists>w'. map_of (fst (lightingStep occ L a rest)) p = Some w' \<and> w \<le> w'"
  by (cases rule: lightingStep_cases [of L a occ rest]) (auto simp: update_conv')

lemma lightingLoop_None:
  "map_of L p = None \<Longrightarrow> map_of (lightingLoop occ L actions) p = None"
  by (induction occ L actions rule: lightingLoop.induct) (simp_all add: lightingStep_None)

lemma lightingLoop_mono:
  "map_of L p = Some w \<Longrightarrow> \<exists>w'. map_of (lightingLoop occ L actions) p = Some w' \<and> w \<le> w'"
proof (induction occ L actions arbitrary: w rule: lightingLoop.induct)
  case (1 occ L)
  then show ?case by simp
next
  case (2 occ L a rest)
  from lightingStep_mono [OF "2.prems", of occ a rest]
  obtain w1 where w1: "map_of (fst (lightingStep occ L a rest)) p = Some w1" "w \<le> w1"
    by blast
  from "2.IH" [OF w1(1)] w1(2) show ?case by auto
qed

subsection \<open>Every entry of the worklist is honoured\<close>

lemma settled_step: "settled occ L n \<Longrightarrow> settled occ (fst (lightingStep occ L a rest)) n"
proof (cases "map_of L (pos n)")
  case None
  then show ?thesis by (simp add: settled_def lightingStep_None)
next
  case (Some w)
  assume "settled occ L n"
  with Some lightingStep_mono [OF Some, of occ a rest] show ?thesis
    by (auto simp: settled_def)
qed

lemma settled_loop: "settled occ L n \<Longrightarrow> settled occ (lightingLoop occ L actions) n"
  by (induction occ L actions rule: lightingLoop.induct) (simp_all add: settled_step)

lemma settled_self: "settled occ (fst (lightingStep occ L a rest)) a"
  by (cases rule: lightingStep_cases [of L a occ rest])
     (auto simp: settled_def update_conv' split: option.splits)

lemma rest_kept: "n \<in> set rest \<Longrightarrow> n \<in> set (snd (lightingStep occ L a rest))"
  by (cases rule: lightingStep_cases [of L a occ rest]) (auto simp: set_foldl_push)

lemma lightingLoop_settled:
  "n \<in> set actions \<Longrightarrow> settled occ (lightingLoop occ L actions) n"
proof (induction occ L actions rule: lightingLoop.induct)
  case (1 occ L)
  then show ?case by simp
next
  case (2 occ L a rest)
  show ?case
  proof (cases "n = a")
    case True
    then show ?thesis by (simp add: settled_loop settled_self)
  next
    case False
    with "2.prems" have "n \<in> set rest" by simp
    then show ?thesis by (simp add: "2.IH" rest_kept)
  qed
qed

lemma closed_step:
  assumes "closed occ L (a # rest)"
  shows "closed occ (fst (lightingStep occ L a rest)) (snd (lightingStep occ L a rest))"
  unfolding closed_def
proof (intro allI impI ballI, elim conjE)
  fix p w n
  let ?L' = "fst (lightingStep occ L a rest)" and ?acts' = "snd (lightingStep occ L a rest)"
  assume pw: "map_of ?L' p = Some w" "0 < w" and n: "n \<in> set (neighbours (Action p w))"
  show "settled occ ?L' n \<or> n \<in> set ?acts'"
  proof (cases "map_of L p = Some w")
    case True
    with assms pw(2) n have "settled occ L n \<or> n \<in> set (a # rest)"
      unfolding closed_def by blast
    then consider "settled occ L n" | "n = a" | "n \<in> set rest" by auto
    then show ?thesis
      by cases (auto simp: settled_step settled_self rest_kept)
  next
    case False
    then show ?thesis
    proof (cases rule: lightingStep_cases [of L a occ rest])
      case (update cur)
      with False pw(1) have "p = pos a" "w = val a"
        by (auto simp: update_conv' split: if_splits)
      then have "Action p w = a" by simp
      with n update(4) show ?thesis by (simp add: set_foldl_push)
    next
      case skip
      with False pw(1) show ?thesis by simp
    qed
  qed
qed

lemma closed_loop: "closed occ L actions \<Longrightarrow> closed occ (lightingLoop occ L actions) []"
  by (induction occ L actions rule: lightingLoop.induct) (simp_all add: closed_step)

lemma closed_init: "closed occ (initLighting b) actions"
  by (auto simp: closed_def map_of_initLighting split: if_splits)

subsection \<open>Open columns carry full light\<close>

lemma lit_column:
  assumes x: "vx (min_corner b) - 1 \<le> x" "x \<le> vx (max_corner b) + 1"
    and z: "vz (min_corner b) - 1 \<le> z" "z \<le> vz (max_corner b) + 1"
    and y: "vy (min_corner b) - 1 \<le> y" "y \<le> vy (max_corner b) + 1"
    and free: "\<forall>y'. y \<le> y' \<and> y' \<le> vy (max_corner b) + 1 \<longrightarrow> \<not> occ (Vector3 x y' z)"
  shows "map_of (lightingLoop occ (initLighting b) (initActions b)) (Vector3 x y z) = Some 15"
  using y free
proof (induction "nat (vy (max_corner b) + 1 - y)" arbitrary: y)
  case 0
  let ?Lf = "lightingLoop occ (initLighting b) (initActions b)"
  from 0 have top: "y = vy (max_corner b) + 1" by simp
  have ok: "lightOk occ ?Lf"
    by (rule lightingLoop_ok)
       (auto simp: lightOk_def set_initActions dest: set_initLighting)
  have "map_of (initLighting b) (Vector3 x y z) = Some 0"
    using x z "0.prems"(1,2) by (simp add: map_of_initLighting lightingCells_iff)
  from lightingLoop_mono [OF this, of occ "initActions b"]
  obtain w where w: "map_of ?Lf (Vector3 x y z) = Some w" by blast
  have "Action (Vector3 x y z) 15 \<in> set (initActions b)"
    using x z top by (auto simp: set_initActions)
  then have "settled occ ?Lf (Action (Vector3 x y z) 15)"
    by (rule lightingLoop_settled)
  with w "0.prems"(3) "0.prems"(2) have "15 \<le> w"
    by (auto simp: settled_def)
  moreover from w have "(Vector3 x y z, w) \<in> set ?Lf" by (rule map_of_SomeD)
  with ok have "w \<le> 15" by (auto simp: lightOk_def)
  ultimately show ?case using w by simp
next
  case (Suc k)
  let ?Lf = "lightingLoop occ (initLighting b) (initActions b)"
  have ok: "lightOk occ ?Lf"
    by (rule lightingLoop_ok)
       (auto simp: lightOk_def set_initActions dest: set_initLighting)
  from Suc.hyps(2) have lt: "y < vy (max_corner b) + 1" by linarith
  have above: "map_of ?Lf (Vector3 x (y + 1) z) = Some 15"
  proof (rule Suc.hyps(1))
    show "k = nat (vy (max_corner b) + 1 - (y + 1))" using Suc.hyps(2) by linarith
    show "vy (min_corner b) - 1 \<le> y + 1" using Suc.prems(1) by simp
    show "y + 1 \<le> vy (max_corner b) + 1" using lt by simp
    show "\<forall>y'. y + 1 \<le> y' \<and> y' \<le> vy (max_corner b) + 1 \<longrightarrow> \<not> occ (Vector3 x y' z)"
      using Suc.prems(3) by auto
  qed
  have "closed occ ?Lf []"
    by (rule closed_loop) (rule closed_init)
  moreover have "Action (Vector3 x y z) 15 \<in> set (neighbours (Action (Vector3 x (y + 1) z) 15))"
    by (simp add: neighbours_def Vector3_add_def)
  ultimately have st: "settled occ ?Lf (Action (Vector3 x y z) 15)"
    using above unfolding closed_def by fastforce
  have "map_of (initLighting b) (Vector3 x y z) = Some 0"
    using x z Suc.prems(1,2) by (simp add: map_of_initLighting lightingCells_iff)
  from lightingLoop_mono [OF this, of occ "initActions b"]
  obtain w where w: "map_of ?Lf (Vector3 x y z) = Some w" by blast
  from st w Suc.prems(3) Suc.prems(2) have "15 \<le> w"
    by (auto simp: settled_def)
  moreover from w have "(Vector3 x y z, w) \<in> set ?Lf" by (rule map_of_SomeD)
  with ok have "w \<le> 15" by (auto simp: lightOk_def)
  ultimately show ?case using w by simp
qed

section \<open>Claims about the lighting pass\<close>

text \<open>
  C3. Whenever the popped entry updates the stored value of its coordinate to the candidate
  \<open>v\<close> (the coordinate is tracked, stores less than \<open>v\<close> and is not occupied), exactly six
  entries are pushed on top of the remaining worklist, one per axis-aligned neighbour:
  the successors at +X, -X, +Y, +Z and -Z carry \<open>v - 1\<close>, and the successor at -Y carries
  \<open>v\<close> itself when \<open>v = 15\<close> and \<open>v - 1\<close> otherwise. The last entry pushed (-Y) is on
  top of the stack.
\<close>

theorem C3_six_successors:
  assumes "map_of L (Vector3 x y z) = Some cur" and "cur < v" and "\<not> occ (Vector3 x y z)"
  shows "lightingStep occ L (Action (Vector3 x y z) v) rest =
     (AList.update (Vector3 x y z) v L,
      [Action (Vector3 x (y - 1) z) (if v = 15 then 15 else v - 1),
       Action (Vector3 x y (z - 1)) (v - 1),
       Action (Vector3 (x - 1) y z) (v - 1),
       Action (Vector3 x y (z + 1)) (v - 1),
       Action (Vector3 (x + 1) y z) (v - 1),
       Action (Vector3 x (y + 1) z) (v - 1)] @ rest)"
  using assms
  by (simp add: lightingStep_def neighbours_def push_def Vector3_add_def)

theorem C3_six_successors_witness:
  "lightingStep (\<lambda>q. False) [(Vector3 0 0 0, 0), (Vector3 0 1 0, 0)] (Action (Vector3 0 1 0) 15) [] =
     ([(Vector3 0 0 0, 0), (Vector3 0 1 0, 15)],
      [Action (Vector3 0 0 0) 15, Action (Vector3 0 1 (- 1)) 14, Action (Vector3 (- 1) 1 0) 14,
       Action (Vector3 0 1 1) 14, Action (Vector3 1 1 0) 14, Action (Vector3 0 2 0) 14])"
  using C3_six_successors [of "[(Vector3 0 0 0, 0), (Vector3 0 1 0, 0)]" 0 1 0 0 15 "\<lambda>q. False" "[]"]
  by simp

text \<open>
  C4 as the claim states it fails: the seed layer is not above the volume tracked by the
  lighting field. For bounds that are the single cell at the origin, the seed of the middle
  column sits at \<open>y = 1\<close>, a coordinate the field tracks (initialised to 0), while the
  layer above the tracked volume, \<open>y = 2\<close>, is not tracked at all.
\<close>

theorem C4_seed_layer_counterexample:
  "Action (Vector3 0 1 0) 15
     \<in> set (initActions \<lparr> min_corner = Vector3 0 0 0, max_corner = Vector3 0 0 0 \<rparr>)
   \<and> map_of (initLighting \<lparr> min_corner = Vector3 0 0 0, max_corner = Vector3 0 0 0 \<rparr>)
        (Vector3 0 1 0) = Some 0
   \<and> map_of (initLighting \<lparr> min_corner = Vector3 0 0 0, max_corner = Vector3 0 0 0 \<rparr>)
        (Vector3 0 2 0) = None"
  by (simp add: set_initActions map_of_initLighting lightingCells_iff)

text \<open>
  C4, amended. The lighting field tracks exactly the bounds grown by one cell on every axis,
  every tracked coordinate starting at 0. The initial worklist holds, for every (x,z) column
  of that volume, exactly one entry, with value 15 at \<open>y = bounds.max.y + 1\<close>, and no other
  entry. This seed layer is the topmost layer of the tracked volume (one layer above the
  source bounds): every seed coordinate is tracked, and no tracked coordinate lies higher.
\<close>

theorem C4_seed_layer:
  assumes "vy (min_corner b) - 1 \<le> vy (max_corner b) + 1"
  shows "set (initActions b) =
           {Action (Vector3 x (vy (max_corner b) + 1) z) 15 | x z.
              vx (min_corner b) - 1 \<le> x \<and> x \<le> vx (max_corner b) + 1
              \<and> vz (min_corner b) - 1 \<le> z \<and> z \<le> vz (max_corner b) + 1}
     \<and> distinct (map pos (initActions b))
     \<and> (\<forall>p. map_of (initLighting b) p =
            (if vx (min_corner b) - 1 \<le> vx p \<and> vx p \<le> vx (max_corner b) + 1
                \<and> vy (min_corner b) - 1 \<le> vy p \<and> vy p \<le> vy (max_corner b) + 1
                \<and> vz (min_corner b) - 1 \<le> vz p \<and> vz p \<le> vz (max_corner b) + 1
             then Some 0 else None))
     \<and> (\<forall>a \<in> set (initActions b). map_of (initLighting b) (pos a) = Some 0)
     \<and> (\<forall>p w. map_of (initLighting b) p = Some w \<longrightarrow> vy p \<le> vy (max_corner b) + 1)"
proof -
  have field: "map_of (initLighting b) p =
            (if vx (min_corner b) - 1 \<le> vx p \<and> vx p \<le> vx (max_corner b) + 1
                \<and> vy (min_corner b) - 1 \<le> vy p \<and> vy p \<le> vy (max_corner b) + 1
                \<and> vz (min_corner b) - 1 \<le> vz p \<and> vz p \<le> vz (max_corner b) + 1
             then Some 0 else None)" for p
    by (simp add: map_of_initLighting lightingCells_iff)
  have seeds: "\<forall>a \<in> set (initActions b). map_of (initLighting b) (pos a) = Some 0"
    using assms by (auto simp: set_initActions field)
  have top: "\<forall>p w. map_of (initLighting b) p = Some w \<longrightarrow> vy p \<le> vy (max_corner b) + 1"
    by (auto simp: field split: if_splits)
  from set_initActions [of b] distinct_pos_initActions [of b] field seeds top
  show ?thesis by blast
qed

theorem C4_seed_layer_witness:
  "Action (Vector3 1 1 (- 1)) 15
     \<in> set (initActions \<lparr> min_corner = Vector3 0 0 0, max_corner = Vector3 0 0 0 \<rparr>)
   \<and> map_of (initLighting \<lparr> min_corner = Vector3 0 0 0, max_corner = Vector3 0 0 0 \<rparr>)
        (Vector3 1 1 (- 1)) = Some 0"
proof -
  let ?b = "\<lparr> min_corner = Vector3 0 0 0, max_corner = Vector3 0 0 0 \<rparr>"
  have h: "vy (min_corner ?b) - 1 \<le> vy (max_corner ?b) + 1"
    by simp
  from C4_seed_layer [OF h]
  have s: "set (initActions ?b) =
           {Action (Vector3 x (vy (max_corner ?b) + 1) z) 15 | x z.
              vx (min_corner ?b) - 1 \<le> x \<and> x \<le> vx (max_corner ?b) + 1
              \<and> vz (min_corner ?b) - 1 \<le> z \<and> z \<le> vz (max_corner ?b) + 1}"
    and t: "\<forall>a \<in> set (initActions ?b). map_of (initLighting ?b) (pos a) = Some 0"
    by blast+
  have m: "Action (Vector3 1 1 (- 1)) 15 \<in> set (initActions ?b)"
    unfolding s by simp
  with t have "map_of (initLighting ?b) (pos (Action (Vector3 1 1 (- 1)) 15)) = Some 0"
    by blast
  with m show ?thesis by simp
qed

text \<open>
  C5 as the claim states it fails. For the source whose only voxel is at the origin, the
  cell above the voxel, \<open>(0,1,0)\<close>, has light level 15, and so has the open cell at the
  same height one step to the side, \<open>(1,1,0)\<close>: it is not at most 14. The same holds
  for the open cell beside the voxel itself, \<open>(1,0,0)\<close>.
\<close>

theorem C5_side_cell_counterexample:
  "map_of (lighting (calculateLighting ex_singleMesh)) (Vector3 0 1 0) = Some 15
   \<and> map_of (lighting (calculateLighting ex_singleMesh)) (Vector3 1 1 0) = Some 15
   \<and> \<not> the (map_of (lighting (calculateLighting ex_singleMesh)) (Vector3 1 1 0)) \<le> 14
   \<and> \<not> the (map_of (lighting (calculateLighting ex_singleMesh)) (Vector3 1 0 0)) \<le> 14"
proof -
  let ?b = "\<lparr> min_corner = Vector3 0 0 0, max_corner = Vector3 0 0 0 \<rparr>"
  let ?occ = "\<lambda>q. q = Vector3 0 0 0"
  have L: "lighting (calculateLighting ex_singleMesh)
             = lightingLoop ?occ (initLighting ?b) (initActions ?b)"
    by (simp add: calculateLighting_def Let_def ex_singleMesh_def ex_single_def
          new_BlockMesh_def)
  have "map_of (lightingLoop ?occ (initLighting ?b) (initActions ?b)) (Vector3 0 1 0) = Some 15"
    by (rule lit_column) auto
  moreover
  have "map_of (lightingLoop ?occ (initLighting ?b) (initActions ?b)) (Vector3 1 1 0) = Some 15"
    by (rule lit_column) auto
  moreover
  have "map_of (lightingLoop ?occ (initLighting ?b) (initActions ?b)) (Vector3 1 0 0) = Some 15"
    by (rule lit_column) auto
  ultimately show ?thesis
    by (simp add: L)
qed

text \<open>
  C5, amended. For a voxel source whose only voxel is at \<open>p\<close>, with bounds that contain
  \<open>p\<close>, after lighting propagation every cell of the tracked volume directly above the
  voxel has light level 15, and each of the four cells at the same height one step to the
  side has light level 15 as well: its column is open up to the seed layer.
\<close>

theorem C5_single_voxel_light:
  assumes single: "\<forall>q. isVoxelAt (voxelMesh bm) q = (q = p)"
    and inside:
      "vx (min_corner (getBounds (voxelMesh bm))) \<le> vx p"
      "vx p \<le> vx (max_corner (getBounds (voxelMesh bm)))"
      "vy (min_corner (getBounds (voxelMesh bm))) \<le> vy p"
      "vy p \<le> vy (max_corner (getBounds (voxelMesh bm)))"
      "vz (min_corner (getBounds (voxelMesh bm))) \<le> vz p"
      "vz p \<le> vz (max_corner (getBounds (voxelMesh bm)))"
    and above: "vy p < y" "y \<le> vy (max_corner (getBounds (voxelMesh bm))) + 1"
    and side: "(dx, dz) \<in> {(1, 0), (- 1, 0), (0, 1), (0, - 1)}"
  shows "map_of (lighting (calculateLighting bm)) (Vector3 (vx p) y (vz p)) = Some 15
     \<and> map_of (lighting (calculateLighting bm)) (Vector3 (vx p + dx) y (vz p + dz)) = Some 15"
proof -
  let ?b = "getBounds (voxelMesh bm)"
  have L: "lighting (calculateLighting bm)
             = lightingLoop (isVoxelAt (voxelMesh bm)) (initLighting ?b) (initActions ?b)"
    by (simp add: calculateLighting_def Let_def)
  have occ: "isVoxelAt (voxelMesh bm) q \<longleftrightarrow> q = p" for q
    using single by simp
  have "map_of (lightingLoop (isVoxelAt (voxelMesh bm)) (initLighting ?b) (initActions ?b))
          (Vector3 (vx p) y (vz p)) = Some 15"
  proof (rule lit_column)
    show "\<forall>y'. y \<le> y' \<and> y' \<le> vy (max_corner ?b) + 1
            \<longrightarrow> \<not> isVoxelAt (voxelMesh bm) (Vector3 (vx p) y' (vz p))"
      using above(1) by (cases p) (auto simp: occ)
  qed (use inside above in simp_all)
  moreover
  have "map_of (lightingLoop (isVoxelAt (voxelMesh bm)) (initLighting ?b) (initActions ?b))
          (Vector3 (vx p + dx) y (vz p + dz)) = Some 15"
  proof (rule lit_column)
    show "\<forall>y'. y \<le> y' \<and> y' \<le> vy (max_corner ?b) + 1
            \<longrightarrow> \<not> isVoxelAt (voxelMesh bm) (Vector3 (vx p + dx) y' (vz p + dz))"
      using above(1) by (cases p) (auto simp: occ)
  qed (use inside above side in auto)
  ultimately show ?thesis
    by (simp add: L)
qed

theorem C5_single_voxel_light_witness:
  "map_of (lighting (calculateLighting ex_singleMesh)) (Vector3 0 1 0) = Some 15
   \<and> map_of (lighting (calculateLighting ex_singleMesh)) (Vector3 0 1 (- 1)) = Some 15"
  using C5_single_voxel_light [of ex_singleMesh "Vector3 0 0 0" 1 0 "- 1"]
  by (simp add: ex_singleMesh_def ex_single_def new_BlockMesh_def)

text \<open>
  C7. The lighting pass terminates, and afterwards every value stored in the lighting field
  lies between 0 and 15; a coordinate occupied by a voxel never stores anything but 0, and
  stores 0 whenever it lies within the bounds of the source. An entry popped at an occupied
  coordinate changes nothing and pushes no successor.
\<close>

theorem C7_lighting_range:
  "(\<forall>k w. map_of (lighting (calculateLighting bm)) k = Some w \<longrightarrow> 0 \<le> w \<and> w \<le> 15)
   \<and> (\<forall>k w. isVoxelAt (voxelMesh bm) k \<and> map_of (lighting (calculateLighting bm)) k = Some w
          \<longrightarrow> w = 0)
   \<and> (\<forall>k. isVoxelAt (voxelMesh bm) k
          \<and> vx (min_corner (getBounds (voxelMesh bm))) \<le> vx k
          \<and> vx k \<le> vx (max_corner (getBounds (voxelMesh bm)))
          \<and> vy (min_corner (getBounds (voxelMesh bm))) \<le> vy k
          \<and> vy k \<le> vy (max_corner (getBounds (voxelMesh bm)))
          \<and> vz (min_corner (getBounds (voxelMesh bm))) \<le> vz k
          \<and> vz k \<le> vz (max_corner (getBounds (voxelMesh bm)))
          \<longrightarrow> map_of (lighting (calculateLighting bm)) k = Some 0)
   \<and> (\<forall>L a rest. isVoxelAt (voxelMesh bm) (pos a)
          \<longrightarrow> lightingStep (isVoxelAt (voxelMesh bm)) L a rest = (L, rest))"
proof -
  let ?b = "getBounds (voxelMesh bm)"
  let ?occ = "isVoxelAt (voxelMesh bm)"
  let ?Lf = "lightingLoop ?occ (initLighting ?b) (initActions ?b)"
  have L: "lighting (calculateLighting bm) = ?Lf"
    by (simp add: calculateLighting_def Let_def)
  have ok: "lightOk ?occ ?Lf"
    by (rule lightingLoop_ok)
       (auto simp: lightOk_def set_initActions dest: set_initLighting)
  have range: "0 \<le> w \<and> w \<le> 15 \<and> (?occ k \<longrightarrow> w = 0)" if "map_of ?Lf k = Some w" for k w
  proof -
    from that have "(k, w) \<in> set ?Lf" by (rule map_of_SomeD)
    with ok show ?thesis by (auto simp: lightOk_def)
  qed
  have zero: "map_of ?Lf k = Some 0"
    if "?occ k" "vx (min_corner ?b) \<le> vx k" "vx k \<le> vx (max_corner ?b)"
       "vy (min_corner ?b) \<le> vy k" "vy k \<le> vy (max_corner ?b)"
       "vz (min_corner ?b) \<le> vz k" "vz k \<le> vz (max_corner ?b)" for k
  proof -
    have "map_of (initLighting ?b) k = Some 0"
      using that by (simp add: map_of_initLighting lightingCells_iff)
    from lightingLoop_mono [OF this, of ?occ "initActions ?b"]
    obtain w where w: "map_of ?Lf k = Some w" by blast
    with range [OF w] that(1) show ?thesis by simp
  qed
  have skip: "lightingStep ?occ M a rest = (M, rest)" if "?occ (pos a)" for M a rest
    using that by (simp add: lightingStep_def split: option.splits)
  show ?thesis
    unfolding L using range zero skip by blast
qed

theorem C7_lighting_range_witness:
  "isVoxelAt (voxelMesh ex_blockMesh) (Vector3 0 1 0)
   \<and> map_of (lighting (calculateLighting ex_blockMesh)) (Vector3 0 1 0) = Some 0"
proof -
  have b: "getBounds (voxelMesh ex_blockMesh)
             = \<lparr> min_corner = Vector3 0 0 0, max_corner = Vector3 0 1 0 \<rparr>"
    by (simp add: ex_blockMesh_def new_BlockMesh_def ex_mesh_def)
  have o: "isVoxelAt (voxelMesh ex_blockMesh) (Vector3 0 1 0)"
    by (simp add: ex_blockMesh_def new_BlockMesh_def ex_mesh_def)
  from C7_lighting_range [of ex_blockMesh]
  have "isVoxelAt (voxelMesh ex_blockMesh) (Vector3 0 1 0)
          \<and> vx (min_corner (getBounds (voxelMesh ex_blockMesh))) \<le> vx (Vector3 0 1 0)
          \<and> vx (Vector3 0 1 0) \<le> vx (max_corner (getBounds (voxelMesh ex_blockMesh)))
          \<and> vy (min_corner (getBounds (voxelMesh ex_blockMesh))) \<le> vy (Vector3 0 1 0)
          \<and> vy (Vector3 0 1 0) \<le> vy (max_corner (getBounds (voxelMesh ex_blockMesh)))
          \<and> vz (min_corner (getBounds (voxelMesh ex_blockMesh))) \<le> vz (Vector3 0 1 0)
          \<and> vz (Vector3 0 1 0) \<le> vz (max_corner (getBounds (voxelMesh ex_blockMesh)))
          \<longrightarrow> map_of (lighting (calculateLighting ex_blockMesh)) (Vector3 0 1 0) = Some 0"
    by blast
  with o show ?thesis
    by (simp add: b)
qed

section \<open>Properties of the chunked buffer cache\<close>

lemma getChunkedBuffer_cached:
  "bufferChunks bm k = Some c \<Longrightarrow> getChunkedBuffer gen bm k = (c, bm, [])"
  by (simp add: getChunkedBuffer_def)

lemma getChunkedBuffer_stores:
  "getChunkedBuffer gen bm k = (c, bm1, log1) \<Longrightarrow>
     bufferChunks bm1 k = Some c
     \<and> log1 = (if bufferChunks bm k = None then [k] else [])"
  by (auto simp: getChunkedBuffer_def Let_def split: option.splits)

lemma getChunkedBuffer_other:
  "getChunkedBuffer gen bm k0 = (c, bm1, log1) \<Longrightarrow> k \<noteq> k0 \<Longrightarrow>
     bufferChunks bm1 k = bufferChunks bm k \<and> k \<notin> set log1"
  by (auto simp: getChunkedBuffer_def Let_def split: option.splits)

lemma getChunkedBuffers_length:
  "getChunkedBuffers gen bm ks = (cs, bm', log) \<Longrightarrow> length cs = length ks"
  by (induction ks arbitrary: bm cs bm' log) (auto split: prod.splits)

lemma getChunkedBuffers_cached:
  "bufferChunks bm k = Some c \<Longrightarrow> getChunkedBuffers gen bm ks = (cs, bm', log) \<Longrightarrow>
     bufferChunks bm' k = Some c \<and> k \<notin> set log
     \<and> (\<forall>i < length ks. ks ! i = k \<longrightarrow> cs ! i = c)"
proof (induction ks arbitrary: bm cs bm' log)
  case Nil
  then show ?case by simp
next
  case (Cons k0 ks)
  obtain c0 bm1 log1 where s1: "getChunkedBuffer gen bm k0 = (c0, bm1, log1)"
    by (cases "getChunkedBuffer gen bm k0") auto
  obtain cs2 bm2 log2 where s2: "getChunkedBuffers gen bm1 ks = (cs2, bm2, log2)"
    by (cases "getChunkedBuffers gen bm1 ks") auto
  from Cons.prems(2) s1 s2 have r: "cs = c0 # cs2" "bm' = bm2" "log = log1 @ log2"
    by simp_all
  have h: "bufferChunks bm1 k = Some c \<and> k \<notin> set log1 \<and> (k0 = k \<longrightarrow> c0 = c)"
  proof (cases "k0 = k")
    case True
    with Cons.prems(1) s1 show ?thesis
      by (simp add: getChunkedBuffer_cached)
  next
    case False
    with getChunkedBuffer_other [OF s1, of k] Cons.prems(1) show ?thesis
      by simp
  qed
  from Cons.IH [OF conjunct1 [OF h] s2]
  have t: "bufferChunks bm2 k = Some c" "k \<notin> set log2"
    "\<forall>i < length ks. ks ! i = k \<longrightarrow> cs2 ! i = c"
    by simp_all
  have "(c0 # cs2) ! i = c" if "i < length (k0 # ks)" "(k0 # ks) ! i = k" for i
  proof (cases i)
    case 0
    with that h show ?thesis by simp
  next
    case (Suc j)
    with that t(3) show ?thesis by simp
  qed
  with h t show ?case
    by (simp add: r)
qed

lemma getChunkedBuffers_once:
  "getChunkedBuffers gen bm ks = (cs, bm', log) \<Longrightarrow>
     count_list log k = (if k \<in> set ks \<and> bufferChunks bm k = None then 1 else 0)
     \<and> (\<forall>i < length ks. ks ! i = k \<longrightarrow> bufferChunks bm' k = Some (cs ! i))"
proof (induction ks arbitrary: bm cs bm' log)
  case Nil
  then show ?case by simp
next
  case (Cons k0 ks)
  obtain c0 bm1 log1 where s1: "getChunkedBuffer gen bm k0 = (c0, bm1, log1)"
    by (cases "getChunkedBuffer gen bm k0") auto
  obtain cs2 bm2 log2 where s2: "getChunkedBuffers gen bm1 ks = (cs2, bm2, log2)"
    by (cases "getChunkedBuffers gen bm1 ks") auto
  from Cons.prems s1 s2 have r: "cs = c0 # cs2" "bm' = bm2" "log = log1 @ log2"
    by simp_all
  show ?case
  proof (cases "k0 = k")
    case True
    from getChunkedBuffer_stores [OF s1] True
    have st: "bufferChunks bm1 k = Some c0"
      "log1 = (if bufferChunks bm k = None then [k] else [])"
      by simp_all
    from getChunkedBuffers_cached [OF st(1) s2]
    have t: "bufferChunks bm2 k = Some c0" "k \<notin> set log2"
      "\<forall>i < length ks. ks ! i = k \<longrightarrow> cs2 ! i = c0"
      by simp_all
    have "count_list log k = (if bufferChunks bm k = None then 1 else 0)"
      using t(2) by (simp add: r st(2))
    moreover
    have "bufferChunks bm2 k = Some ((c0 # cs2) ! i)"
      if "i < length (k0 # ks)" "(k0 # ks) ! i = k" for i
    proof (cases i)
      case 0
      with t(1) show ?thesis by simp
    next
      case (Suc j)
      with that t(1,3) show ?thesis by simp
    qed
    ultimately show ?thesis
      using True by (simp add: r)
  next
    case False
    then have ne: "k \<noteq> k0" by simp
    from getChunkedBuffer_other [OF s1 ne]
    have o: "bufferChunks bm1 k = bufferChunks bm k" "k \<notin> set log1"
      by simp_all
    from Cons.IH [OF s2]
    have t: "count_list log2 k = (if k \<in> set ks \<and> bufferChunks bm1 k = None then 1 else 0)"
      "\<forall>i < length ks. ks ! i = k \<longrightarrow> bufferChunks bm2 k = Some (cs2 ! i)"
      by simp_all
    have "count_list log k = (if k \<in> set (k0 # ks) \<and> bufferChunks bm k = None then 1 else 0)"
      using o False t(1) by (simp add: r)
    moreover
    have "bufferChunks bm2 k = Some ((c0 # cs2) ! i)"
      if "i < length (k0 # ks)" "(k0 # ks) ! i = k" for i
    proof (cases i)
      case 0
      with that False show ?thesis by simp
    next
      case (Suc j)
      with that have "j < length ks" "ks ! j = k" by simp_all
      from t(2) [rule_format, OF this] Suc show ?thesis by simp
    qed
    ultimately show ?thesis
      by (simp add: r)
  qed
qed

lemma getChunkedBuffer_miss:
  "bufferChunks bm k = None \<Longrightarrow>
     getChunkedBuffer gen bm k =
       (gen bm k, bm\<lparr> bufferChunks := (bufferChunks bm)(k \<mapsto> gen bm k) \<rparr>, [k])"
  by (simp add: getChunkedBuffer_def Let_def)

lemma getChunkedBuffer_frame:
  "getChunkedBuffer gen bm k0 = (c, bm1, log1) \<Longrightarrow> bm1 = bm\<lparr> bufferChunks := bufferChunks bm1 \<rparr>"
  by (auto simp: getChunkedBuffer_def Let_def split: option.splits)

lemma getChunkedBuffers_frame:
  "getChunkedBuffers gen bm ks = (cs, bm', log) \<Longrightarrow>
     bm' = bm\<lparr> bufferChunks := bufferChunks bm' \<rparr>
     \<and> (k \<notin> set ks \<longrightarrow> bufferChunks bm' k = bufferChunks bm k)"
proof (induction ks arbitrary: bm cs bm' log)
  case Nil
  then show ?case by simp
next
  case (Cons k0 ks)
  obtain c0 bm1 log1 where s1: "getChunkedBuffer gen bm k0 = (c0, bm1, log1)"
    by (cases "getChunkedBuffer gen bm k0") auto
  obtain cs2 bm2 log2 where s2: "getChunkedBuffers gen bm1 ks = (cs2, bm2, log2)"
    by (cases "getChunkedBuffers gen bm1 ks") auto
  from Cons.prems s1 s2 have r: "bm' = bm2"
    by simp
  from Cons.IH [OF s2]
  have t: "bm2 = bm1\<lparr> bufferChunks := bufferChunks bm2 \<rparr>"
    "k \<notin> set ks \<longrightarrow> bufferChunks bm2 k = bufferChunks bm1 k"
    by simp_all
  from getChunkedBuffer_frame [OF s1]
  have f: "bm1 = bm\<lparr> bufferChunks := bufferChunks bm1 \<rparr>" .
  have "bm2 = bm\<lparr> bufferChunks := bufferChunks bm2 \<rparr>"
    by (subst t(1), subst f) simp
  moreover have "k \<notin> set (k0 # ks) \<longrightarrow> bufferChunks bm2 k = bufferChunks bm k"
  proof
    assume n: "k \<notin> set (k0 # ks)"
    then have "k \<noteq> k0" by auto
    from getChunkedBuffer_other [OF s1 this] t(2) n show "bufferChunks bm2 k = bufferChunks bm k"
      by simp
  qed
  ultimately show ?case
    by (simp add: r)
qed

lemma getChunkedBuffers_first_miss:
  "getChunkedBuffers gen bm ks = (cs, bm', log) \<Longrightarrow> i < length ks \<Longrightarrow> ks ! i = k
   \<Longrightarrow> k \<notin> set (take i ks) \<Longrightarrow> bufferChunks bm k = None
   \<Longrightarrow> cs ! i = gen (fst (snd (getChunkedBuffers gen bm (take i ks)))) k"
proof (induction ks arbitrary: bm cs bm' log i)
  case Nil
  then show ?case by simp
next
  case (Cons k0 ks)
  obtain c0 bm1 log1 where s1: "getChunkedBuffer gen bm k0 = (c0, bm1, log1)"
    by (cases "getChunkedBuffer gen bm k0") auto
  obtain cs2 bm2 log2 where s2: "getChunkedBuffers gen bm1 ks = (cs2, bm2, log2)"
    by (cases "getChunkedBuffers gen bm1 ks") auto
  from Cons.prems(1) s1 s2 have r: "cs = c0 # cs2"
    by simp
  show ?case
  proof (cases i)
    case 0
    with Cons.prems(3) have "k0 = k" by simp
    with Cons.prems(5) s1 have "c0 = gen bm k"
      by (simp add: getChunkedBuffer_miss)
    with 0 show ?thesis by (simp add: r)
  next
    case (Suc j)
    with Cons.prems have j: "j < length ks" "ks ! j = k" "k \<notin> set (take j ks)" and ne: "k \<noteq> k0"
      by auto
    from getChunkedBuffer_other [OF s1 ne] Cons.prems(5)
    have "bufferChunks bm1 k = None" by simp
    from Cons.IH [OF s2 j this]
    have "cs2 ! j = gen (fst (snd (getChunkedBuffers gen bm1 (take j ks)))) k" .
    moreover have "fst (snd (getChunkedBuffers gen bm (k0 # take j ks)))
                     = fst (snd (getChunkedBuffers gen bm1 (take j ks)))"
      by (simp add: s1 case_prod_beta)
    ultimately show ?thesis
      using Suc by (simp add: r)
  qed
qed

text \<open>
  C9. For every chunk index \<open>k\<close> and every sequence of \<^verbatim>\<open>getChunkedBuffer\<close> calls on one
  aggregate, the generator is invoked at most once for \<open>k\<close> (exactly once when \<open>k\<close> is
  requested and was not stored before, never otherwise), every call with index \<open>k\<close> returns
  the same value, which is the chunk stored for \<open>k\<close> at the end, and a chunk stored before
  the calls is still stored unchanged after them. The first call for an index not stored
  before returns what the generator answers for the aggregate as it stands at that call and
  for \<open>k\<close>. The calls change nothing of the aggregate but the stored chunks, and the slot of
  an index that is never requested stays as it was.
\<close>

theorem C9_chunk_cache:
  "case getChunkedBuffers gen bm ks of (cs, bm', log) \<Rightarrow>
     length cs = length ks
     \<and> count_list log k \<le> 1
     \<and> count_list log k = (if k \<in> set ks \<and> bufferChunks bm k = None then 1 else 0)
     \<and> (\<forall>i < length ks. \<forall>j < length ks. ks ! i = k \<and> ks ! j = k \<longrightarrow> cs ! i = cs ! j)
     \<and> (\<forall>i < length ks. ks ! i = k \<longrightarrow> bufferChunks bm' k = Some (cs ! i))
     \<and> (\<forall>c. bufferChunks bm k = Some c \<longrightarrow> bufferChunks bm' k = Some c)
     \<and> (\<forall>i < length ks. ks ! i = k \<and> k \<notin> set (take i ks) \<and> bufferChunks bm k = None \<longrightarrow>
           cs ! i = gen (fst (snd (getChunkedBuffers gen bm (take i ks)))) k)
     \<and> bm' = bm\<lparr> bufferChunks := bufferChunks bm' \<rparr>
     \<and> (k \<notin> set ks \<longrightarrow> bufferChunks bm' k = bufferChunks bm k)"
proof -
  obtain cs bm' log where s: "getChunkedBuffers gen bm ks = (cs, bm', log)"
    by (cases "getChunkedBuffers gen bm ks") auto
  from getChunkedBuffers_once [OF s, of k]
  have a: "count_list log k = (if k \<in> set ks \<and> bufferChunks bm k = None then 1 else 0)"
    and b: "\<forall>i < length ks. ks ! i = k \<longrightarrow> bufferChunks bm' k = Some (cs ! i)"
    by simp_all
  have c: "\<forall>i < length ks. \<forall>j < length ks. ks ! i = k \<and> ks ! j = k \<longrightarrow> cs ! i = cs ! j"
  proof (intro allI impI, elim conjE)
    fix i j assume i: "i < length ks" "ks ! i = k" and j: "j < length ks" "ks ! j = k"
    from b [rule_format, OF i] b [rule_format, OF j]
    show "cs ! i = cs ! j" by simp
  qed
  have d: "\<forall>c. bufferChunks bm k = Some c \<longrightarrow> bufferChunks bm' k = Some c"
    using getChunkedBuffers_cached [OF _ s] by blast
  from a have e: "count_list log k \<le> 1"
    by simp
  have g: "\<forall>i < length ks. ks ! i = k \<and> k \<notin> set (take i ks) \<and> bufferChunks bm k = None \<longrightarrow>
           cs ! i = gen (fst (snd (getChunkedBuffers gen bm (take i ks)))) k"
    using getChunkedBuffers_first_miss [OF s] by blast
  from getChunkedBuffers_frame [OF s, of k]
  have h1: "bm' = bm\<lparr> bufferChunks := bufferChunks bm' \<rparr>"
    and h2: "k \<notin> set ks \<longrightarrow> bufferChunks bm' k = bufferChunks bm k"
    by blast+
  note len = getChunkedBuffers_length [OF s]
  show ?thesis
    unfolding s prod.case by (intro conjI) (rule len e a c b d g h1 h2)+
qed

theorem C9_chunk_cache_witness:
  "fst (getChunkedBuffers ex_gen ex_cacheMesh [0, 1, 0]) = [100, 201, 100]
   \<and> snd (snd (getChunkedBuffers ex_gen ex_cacheMesh [0, 1, 0])) = [0, 1]
   \<and> count_list (snd (snd (getChunkedBuffers ex_gen ex_cacheMesh [0, 1, 0]))) 0 \<le> 1
   \<and> fst (getChunkedBuffers ex_gen ex_cacheMesh [0, 1, 0]) ! 0 = ex_gen ex_cacheMesh 0"
proof -
  have v: "getChunkedBuffers ex_gen ex_cacheMesh [0, 1, 0] =
      ([100, 201, 100],
       ex_cacheMesh\<lparr> bufferChunks := ((\<lambda>_. None)(0 \<mapsto> 100))(1 \<mapsto> 201) \<rparr>, [0, 1])"
    by (simp add: getChunkedBuffer_def ex_gen_def ex_cacheMesh_def new_BlockMesh_def Let_def)
  have n: "bufferChunks ex_cacheMesh 0 = None"
    by (simp add: ex_cacheMesh_def new_BlockMesh_def)
  note t = C9_chunk_cache [where gen = ex_gen and bm = ex_cacheMesh and ks = "[0, 1, 0]"
      and k = 0, unfolded v prod.case]
  note m = t [THEN conjunct2, THEN conjunct2, THEN conjunct2, THEN conjunct2, THEN conjunct2,
      THEN conjunct2, THEN conjunct1, rule_format, of 0]
  have "[100, 201, 100 :: nat] ! 0 = ex_gen ex_cacheMesh 0"
    using m n by simp
  with t [THEN conjunct2, THEN conjunct1]
  show ?thesis
    unfolding v by simp
qed

end
